theory Spec2Isabelle
  imports
    Main
    "HOL-Library.Multiset"
    "HOL-Library.Char_ord"
    "HOL-Library.List_Lexorder"
begin

section \<open>Data model of changeLogBuilder.js\<close>

text \<open>
  JavaScript strings are modelled as \<^typ>\<open>string\<close>; the order on them is the
  lexicographic order on character codes (a proper prefix is smaller), which is how
  JavaScript compares two strings with \<^verbatim>\<open><\<close> and \<^verbatim>\<open>></\<close> and how the default
  \<^verbatim>\<open>Array.prototype.sort\<close> orders strings.

  Values read from JSON files and the configuration object are JSON values. Numbers
  are restricted to integers (the only numbers the configuration uses).
\<close>

datatype json =
    JNull
  | JBool bool
  | JNumber int
  | JString string
  | JArray "json list"
  | JObject "(string \<times> json) list"

text \<open>
  One entry of \<^verbatim>\<open>Package.types\<close>: a metadata type name and its members. For an entry
  read from a package.xml the source always goes through \<^verbatim>\<open>String(thisType.name)\<close>;
  the field \<open>name\<close> is that string. An entry has both keys and its members are
  strings, as the parser delivers them for a types element with a name and members;
  the type leaves out entries on which \<^verbatim>\<open>thisType.members.length\<close> would raise.
\<close>

record ptype =
  name :: string
  members :: "string list"

text \<open>
  The object under the key \<^verbatim>\<open>Package\<close>. The source tests
  \<^verbatim>\<open>hasOwnProperty("types")\<close>, so the key \<^verbatim>\<open>types\<close> may be absent.
\<close>

record package =
  version :: json
  types :: "ptype list option"

text \<open>
  A parsed file or the accumulator: an object that may or may not have the key
  \<^verbatim>\<open>Package\<close>. A parse that failed hands \<^verbatim>\<open>undefined\<close> to the callback, so the
  elements of \<^verbatim>\<open>filesDataArray\<close> are of type \<open>package_object option\<close>.
\<close>

record package_object =
  Package :: "package option"

datatype error = TypeError | IOError | SyntaxError

type_synonym logs = "string list"

section \<open>Logging\<close>

text \<open>
  \<^verbatim>\<open>log(logItem, printToScreen, color)\<close> prints the item and appends it to log.txt.
  The model keeps the sequence of logged items.
\<close>

definition log :: "string \<Rightarrow> logs \<Rightarrow> logs" where
  "log logItem out = out @ [logItem]"

text \<open>Conversion of a non-negative integer to its decimal string, as \<^verbatim>\<open>"" + n\<close> does.\<close>

definition digit_char :: "nat \<Rightarrow> char" where
  "digit_char d = char_of (48 + d)"

function string_of_nat :: "nat \<Rightarrow> string" where
  "string_of_nat n =
     (if n < 10 then [digit_char n]
      else string_of_nat (n div 10) @ [digit_char (n mod 10)])"
  by pat_completeness auto
termination
  by (relation "measure id") auto

declare string_of_nat.simps [simp del]

section \<open>getUnique\<close>

text \<open>
  The loop of \<^verbatim>\<open>getUnique\<close>: \<open>uniqueArray\<close> is the accumulator, and
  \<^verbatim>\<open>uniqueArray.indexOf(array[i]) === -1\<close> is non-membership.
\<close>

fun getUnique_loop :: "string list \<Rightarrow> string list \<Rightarrow> string list" where
  "getUnique_loop [] uniqueArray = uniqueArray"
| "getUnique_loop (x # array) uniqueArray =
     getUnique_loop array (if x \<notin> set uniqueArray then uniqueArray @ [x] else uniqueArray)"

definition getUnique :: "string list \<Rightarrow> string list" where
  "getUnique array = getUnique_loop array []"

section \<open>appendTypesToPackage\<close>

text \<open>
  The \<^verbatim>\<open>forEach\<close> over \<^verbatim>\<open>packageObject.Package.types\<close>: every entry whose name equals
  \<open>typeName\<close> gets its members replaced (the \<^verbatim>\<open>return\<close> inside the callback only
  ends that callback, the iteration goes on), and \<open>matchFound\<close> records whether any
  entry matched.
\<close>

fun forEach_append :: "string \<Rightarrow> string list \<Rightarrow> ptype list \<Rightarrow> bool \<Rightarrow> ptype list \<times> bool" where
  "forEach_append typeName mems [] matchFound = ([], matchFound)"
| "forEach_append typeName mems (thisType # rest) matchFound =
     (if name thisType = typeName
      then (case forEach_append typeName mems rest True of
              (rest', found) \<Rightarrow>
                (thisType\<lparr>members := getUnique (members thisType @ mems)\<rparr> # rest', found))
      else (case forEach_append typeName mems rest matchFound of
              (rest', found) \<Rightarrow> (thisType # rest', found)))"

definition appendTypesToPackage ::
  "string \<Rightarrow> string list \<Rightarrow> package_object \<Rightarrow> error + package_object" where
  "appendTypesToPackage typeName mems packageObject =
     (case Package packageObject of
        None \<Rightarrow> Inl TypeError
      | Some pkg \<Rightarrow>
          (let ts = (case types pkg of None \<Rightarrow> [] | Some ts \<Rightarrow> ts) in
           case forEach_append typeName mems ts False of
             (ts', matchFound) \<Rightarrow>
               (let ts'' = (if \<not> matchFound
                            then ts' @ [\<lparr>name = typeName, members = getUnique mems\<rparr>]
                            else ts')
                in Inr (packageObject\<lparr>Package := Some (pkg\<lparr>types := Some ts''\<rparr>)\<rparr>))))"

section \<open>mergeObjects\<close>

text \<open>
  The test \<^verbatim>\<open>thisFile && thisFile.hasOwnProperty("Package") &&
  thisFile.Package.hasOwnProperty("types")\<close>: the types of a file that passes it.
\<close>

definition file_types :: "package_object option \<Rightarrow> ptype list option" where
  "file_types thisFile =
     (case thisFile of
        None \<Rightarrow> None
      | Some f \<Rightarrow> (case Package f of None \<Rightarrow> None | Some pkg \<Rightarrow> types pkg))"

text \<open>The inner \<^verbatim>\<open>forEach\<close> over the types of one file.\<close>

fun forEach_type :: "ptype list \<Rightarrow> logs \<Rightarrow> package_object \<Rightarrow> logs \<times> (error + package_object)" where
  "forEach_type [] out packageObject = (out, Inr packageObject)"
| "forEach_type (thisType # rest) out packageObject =
     (let out' = log (''Writing '' @ string_of_nat (length (members thisType))
                      @ '' members to '' @ name thisType) out
      in case appendTypesToPackage (name thisType) (members thisType) packageObject of
           Inl e \<Rightarrow> (out', Inl e)
         | Inr packageObject' \<Rightarrow> forEach_type rest out' packageObject')"

text \<open>
  The outer \<^verbatim>\<open>forEach\<close> over the files, with the index of the file. An accumulator
  that is \<^verbatim>\<open>undefined\<close> becomes the empty object \<^verbatim>\<open>{}\<close>.
\<close>

fun forEach_file ::
  "package_object option list \<Rightarrow> nat \<Rightarrow> logs \<Rightarrow> package_object option
     \<Rightarrow> logs \<times> (error + package_object option)" where
  "forEach_file [] index out packageObject = (out, Inr packageObject)"
| "forEach_file (thisFile # rest) index out packageObject =
     (let po = (case packageObject of None \<Rightarrow> \<lparr>Package = None\<rparr> | Some p \<Rightarrow> p) in
      case file_types thisFile of
        Some ts \<Rightarrow>
          (case forEach_type ts out po of
             (out', Inl e) \<Rightarrow> (out', Inl e)
           | (out', Inr po') \<Rightarrow> forEach_file rest (Suc index) out' (Some po'))
      | None \<Rightarrow>
          forEach_file rest (Suc index)
            (log (''Malfomred or empty packaged file: '' @ string_of_nat index) out)
            (Some po))"

definition mergeObjects ::
  "package_object option list \<Rightarrow> package_object option \<Rightarrow> logs
     \<Rightarrow> logs \<times> (error + package_object option)" where
  "mergeObjects filesDataArray packageObject out = forEach_file filesDataArray 0 out packageObject"

text \<open>
  \<^verbatim>\<open>createPackageXmlTemplate\<close>: the parsed \<open>packageStructure\<close> (its version element,
  which the parser delivers as a one-element array) with \<^verbatim>\<open>types = []\<close>.
\<close>

definition createPackageXmlTemplate :: package_object where
  "createPackageXmlTemplate =
     \<lparr>Package = Some \<lparr>version = JArray [JString ''48.0''], types = Some []\<rparr>\<rparr>"

section \<open>Sorting arrays\<close>

text \<open>
  \<^verbatim>\<open>Array.prototype.sort(comparefn)\<close> is a built-in of the engine, not of this
  repository. The program runs on Node.js, whose engine sorts an array of fewer than
  64 elements in two steps: it takes the run at the start of the array (the longest
  prefix in which every comparison of an element with its predecessor is non-negative,
  or in which every such comparison is negative; in the second case the prefix is
  reversed), and then inserts every further element into the sorted part at the place
  found by binary search. Longer arrays are cut into such runs, which are then merged;
  the model sorts them as one run, which gives the same array whenever the comparison
  function is a consistent order on the elements.

  The loop of \<^verbatim>\<open>CountAndMakeRun\<close> from the third element on: \<open>runLength\<close> grows
  while the comparison with the previous element keeps the direction of the run.
\<close>

fun run_loop :: "('a \<Rightarrow> 'a \<Rightarrow> int) \<Rightarrow> bool \<Rightarrow> 'a \<Rightarrow> 'a list \<Rightarrow> nat \<Rightarrow> nat" where
  "run_loop comparefn isDescending previousElement [] runLength = runLength"
| "run_loop comparefn isDescending previousElement (currentElement # rest) runLength =
     (if (if isDescending then comparefn currentElement previousElement \<ge> 0
          else comparefn currentElement previousElement < 0)
      then runLength
      else run_loop comparefn isDescending currentElement rest (Suc runLength))"

text \<open>
  \<^verbatim>\<open>CountAndMakeRun\<close>: the second element is compared with the first; when the
  answer is negative the run is descending and is reversed in place. The result is the
  array and the length of the run.
\<close>

fun CountAndMakeRun :: "('a \<Rightarrow> 'a \<Rightarrow> int) \<Rightarrow> 'a list \<Rightarrow> 'a list \<times> nat" where
  "CountAndMakeRun comparefn [] = ([], 0)"
| "CountAndMakeRun comparefn [x] = ([x], 1)"
| "CountAndMakeRun comparefn (elementHigh # elementLow # rest) =
     (let isDescending = (comparefn elementLow elementHigh < 0);
          runLength = run_loop comparefn isDescending elementLow rest 2;
          workArray = elementHigh # elementLow # rest
      in if isDescending
         then (rev (take runLength workArray) @ drop runLength workArray, runLength)
         else (workArray, runLength))"

text \<open>
  The binary search of \<^verbatim>\<open>BinaryInsertionSort\<close> for the place of \<open>pivot\<close> in the
  sorted part: a negative answer moves \<open>right\<close> to \<open>mid\<close>, any other answer moves
  \<open>left\<close> past \<open>mid\<close>.
\<close>

function find_insertion :: "('a \<Rightarrow> 'a \<Rightarrow> int) \<Rightarrow> 'a \<Rightarrow> 'a list \<Rightarrow> nat \<Rightarrow> nat \<Rightarrow> nat" where
  "find_insertion comparefn pivot sortedPart left right =
     (if left < right
      then (let mid = left + (right - left) div 2
            in if comparefn pivot (sortedPart ! mid) < 0
               then find_insertion comparefn pivot sortedPart left mid
               else find_insertion comparefn pivot sortedPart (mid + 1) right)
      else left)"
  by pat_completeness auto
termination
  by (relation "measure (\<lambda>(comparefn, pivot, sortedPart, left, right). right - left)") auto

declare find_insertion.simps [simp del]

text \<open>
  \<^verbatim>\<open>BinaryInsertionSort\<close>: the array is the sorted part followed by the elements still
  to insert; each of them in turn is put at the place the search finds, the elements
  from there on moving up by one.
\<close>

fun BinaryInsertionSort :: "('a \<Rightarrow> 'a \<Rightarrow> int) \<Rightarrow> 'a list \<Rightarrow> 'a list \<Rightarrow> 'a list" where
  "BinaryInsertionSort comparefn sortedPart [] = sortedPart"
| "BinaryInsertionSort comparefn sortedPart (pivot # rest) =
     (let left = find_insertion comparefn pivot sortedPart 0 (length sortedPart)
      in BinaryInsertionSort comparefn (take left sortedPart @ pivot # drop left sortedPart) rest)"

text \<open>Arrays of fewer than two elements are returned as they are.\<close>

definition Array_sort :: "('a \<Rightarrow> 'a \<Rightarrow> int) \<Rightarrow> 'a list \<Rightarrow> 'a list" where
  "Array_sort comparefn xs =
     (if length xs < 2 then xs
      else (case CountAndMakeRun comparefn xs of
              (workArray, runLength) \<Rightarrow>
                BinaryInsertionSort comparefn (take runLength workArray) (drop runLength workArray)))"

text \<open>The comparison used by \<^verbatim>\<open>sort()\<close> without an argument, on strings.\<close>

definition default_compare :: "string \<Rightarrow> string \<Rightarrow> int" where
  "default_compare a b = (if a < b then - 1 else if b < a then 1 else 0)"

text \<open>The comparison function of writeFiles: \<^verbatim>\<open>(a, b) => (a.name > b.name ? 1 : -1)\<close>.\<close>

definition compare_names :: "ptype \<Rightarrow> ptype \<Rightarrow> int" where
  "compare_names a b = (if name a > name b then 1 else - 1)"

section \<open>sortValues\<close>

definition sortValues :: "package_object \<Rightarrow> error + package_object" where
  "sortValues packageObject =
     (case Package packageObject of
        None \<Rightarrow> Inl TypeError
      | Some pkg \<Rightarrow>
          (case types pkg of
             None \<Rightarrow> Inl TypeError
           | Some ts \<Rightarrow>
               Inr (packageObject\<lparr>Package := Some (pkg\<lparr>types := Some
                      (map (\<lambda>thisType. thisType\<lparr>members := Array_sort default_compare (members thisType)\<rparr>)
                         ts)\<rparr>)\<rparr>)))"

section \<open>jsonToCSV\<close>

definition crlf :: string where
  "crlf = [CHR 0x0D, CHR 0x0A]"

text \<open>The text \<^verbatim>\<open>"",\<close> appended for an empty cell: two double quotes and a comma.\<close>

definition empty_cell :: string where
  "empty_cell = [CHR 0x22, CHR 0x22, CHR '','']"

text \<open>Reading \<^verbatim>\<open>xs[i]\<close>: \<^verbatim>\<open>undefined\<close> out of range.\<close>

definition js_index :: "'a list \<Rightarrow> nat \<Rightarrow> 'a option" where
  "js_index xs i = (if i < length xs then Some (xs ! i) else None)"

text \<open>The header loop: the header text, the columns and the row limit.\<close>

fun header_loop ::
  "ptype list \<Rightarrow> string \<Rightarrow> string list list \<Rightarrow> nat \<Rightarrow> string \<times> string list list \<times> nat" where
  "header_loop [] csvString colValues rowLimit = (csvString, colValues, rowLimit)"
| "header_loop (t # rest) csvString colValues rowLimit =
     header_loop rest (csvString @ name t @ '','') (colValues @ [members t])
       (if length (members t) > rowLimit then length (members t) else rowLimit)"

text \<open>
  The loop over the columns for one row. The test \<^verbatim>\<open>if (colValues[col][index])\<close> is
  a truthiness test: \<^verbatim>\<open>undefined\<close> and the empty string both fail it.
\<close>

fun row_loop :: "string list list \<Rightarrow> nat \<Rightarrow> string \<Rightarrow> string" where
  "row_loop [] index row = row"
| "row_loop (col # cols) index row =
     row_loop cols index
       (case js_index col index of
          Some v \<Rightarrow> (if v \<noteq> [] then row @ v @ '','' else row @ empty_cell)
        | None \<Rightarrow> row @ empty_cell)"

function rows_loop :: "string list list \<Rightarrow> nat \<Rightarrow> nat \<Rightarrow> string \<Rightarrow> string" where
  "rows_loop colValues index rowLimit csvString =
     (if index < rowLimit
      then rows_loop colValues (Suc index) rowLimit
             (csvString @ (row_loop colValues index [] @ crlf))
      else csvString)"
  by pat_completeness auto
termination
  by (relation "measure (\<lambda>(colValues, index, rowLimit, csvString). rowLimit - index)") auto

declare rows_loop.simps [simp del]

text \<open>
  \<^verbatim>\<open>for (const index in packageAsJsonObject.Package.types)\<close> iterates nothing when
  \<open>types\<close> is \<^verbatim>\<open>undefined\<close>; a missing \<open>Package\<close> raises.
\<close>

definition jsonToCSV :: "package_object \<Rightarrow> error + string" where
  "jsonToCSV packageAsJsonObject =
     (case Package packageAsJsonObject of
        None \<Rightarrow> Inl TypeError
      | Some pkg \<Rightarrow>
          (case header_loop (case types pkg of None \<Rightarrow> [] | Some ts \<Rightarrow> ts) [] [] 0 of
             (csvString, colValues, rowLimit) \<Rightarrow>
               Inr (rows_loop colValues 0 rowLimit (csvString @ crlf))))"

section \<open>Configuration\<close>

text \<open>The configuration object is a JavaScript object: a map from keys to values.\<close>

definition config :: "string \<rightharpoonup> json" where
  "config = map_of
     [(''skipExistingChangeSets'', JBool True),
      (''rootFolder'', JString ''packages''),
      (''forcePackageVersion'', JNumber 50),
      (''automaticallyFetchChangeSetNames'', JBool True),
      (''changesetJSONFile'', JString ''changeSetNames.json''),
      (''createMergedPackage'', JBool True),
      (''mergedPackageFolder'', JString ''__mergedPackage''),
      (''username'', JString []),
      (''outputFolder'', JString ''results'')]"

definition configFileName :: string where
  "configFileName = ''config.json''"

text \<open>
  \<^verbatim>\<open>readJSONFromFile\<close>: \<^verbatim>\<open>fs.readFileSync\<close> raises when the file cannot be read and
  \<^verbatim>\<open>JSON.parse\<close> raises on text that is not JSON. The file system is a map from file
  names to contents; the parser is a parameter.
\<close>

definition readJSONFromFile ::
  "(string \<Rightarrow> json option) \<Rightarrow> (string \<rightharpoonup> string) \<Rightarrow> string \<Rightarrow> error + json" where
  "readJSONFromFile JSON_parse fs fileName =
     (case fs fileName of
        None \<Rightarrow> Inl IOError
      | Some changeSetsJsonString \<Rightarrow>
          (case JSON_parse changeSetsJsonString of
             None \<Rightarrow> Inl SyntaxError
           | Some parsedJSON \<Rightarrow> Inr parsedJSON))"

text \<open>
  \<^verbatim>\<open>loadConfig\<close> calls \<^verbatim>\<open>readJSONFromFile\<close> and drops its result: the body has no
  \<^verbatim>\<open>return\<close>, so a call that comes back yields \<^verbatim>\<open>undefined\<close> (\<open>None\<close>).
\<close>

definition loadConfig ::
  "(string \<Rightarrow> json option) \<Rightarrow> (string \<rightharpoonup> string) \<Rightarrow> string \<Rightarrow> error + json option" where
  "loadConfig JSON_parse fs fileName =
     (case readJSONFromFile JSON_parse fs fileName of
        Inl e \<Rightarrow> Inl e
      | Inr parsedJSON \<Rightarrow> Inr None)"

text \<open>
  Object spread \<^verbatim>\<open>{ ...target, ...source }\<close>: the own enumerable properties of the
  source override the target; \<^verbatim>\<open>undefined\<close>, \<^verbatim>\<open>null\<close>, booleans and numbers have
  none, arrays and strings have their indices.
\<close>

fun own_properties :: "json \<Rightarrow> (string \<times> json) list" where
  "own_properties (JObject kvs) = kvs"
| "own_properties (JArray xs) = zip (map string_of_nat [0..<length xs]) xs"
| "own_properties (JString s) = zip (map string_of_nat [0..<length s]) (map (\<lambda>c. JString [c]) s)"
| "own_properties JNull = []"
| "own_properties (JBool b) = []"
| "own_properties (JNumber n) = []"

definition spread :: "(string \<rightharpoonup> json) \<Rightarrow> json option \<Rightarrow> (string \<rightharpoonup> json)" where
  "spread target source =
     (case source of
        None \<Rightarrow> target
      | Some v \<Rightarrow> fold (\<lambda>(k, x) m. m(k \<mapsto> x)) (own_properties v) target)"

text \<open>
  The first step of \<^verbatim>\<open>init\<close>:
  \<^verbatim>\<open>loadedConfig = loadConfig(configFileName); config = { ...config, ...loadedConfig }\<close>.
\<close>

definition init_config ::
  "(string \<Rightarrow> json option) \<Rightarrow> (string \<rightharpoonup> string) \<Rightarrow> error + (string \<rightharpoonup> json)" where
  "init_config JSON_parse fs =
     (case loadConfig JSON_parse fs configFileName of
        Inl e \<Rightarrow> Inl e
      | Inr loadedConfig \<Rightarrow> Inr (spread config loadedConfig))"

section \<open>writeFiles\<close>

text \<open>
  \<^verbatim>\<open>writeFiles\<close> sorts the types by name in place, overrides the version when
  \<^verbatim>\<open>config.forcePackageVersion != null\<close> (a missing key and \<^verbatim>\<open>null\<close> both fail that
  test), and writes the object in three encodings. The model returns the object as it
  is written and the CSV text; the XML and JSON texts are made from that same object
  by library calls.
\<close>

definition writeFiles ::
  "(string \<rightharpoonup> json) \<Rightarrow> package_object \<Rightarrow> error + (package_object \<times> string)" where
  "writeFiles cfg objectData =
     (case Package objectData of
        None \<Rightarrow> Inl TypeError
      | Some pkg \<Rightarrow>
          (case types pkg of
             None \<Rightarrow> Inl TypeError
           | Some ts \<Rightarrow>
               (let pkg1 = pkg\<lparr>types := Some (Array_sort compare_names ts)\<rparr>;
                    pkg2 = (case cfg ''forcePackageVersion'' of
                              None \<Rightarrow> pkg1
                            | Some v \<Rightarrow> (if v = JNull then pkg1 else pkg1\<lparr>version := v\<rparr>));
                    objectData' = objectData\<lparr>Package := Some pkg2\<rparr>
                in case jsonToCSV objectData' of
                     Inl e \<Rightarrow> Inl e
                   | Inr csv \<Rightarrow> Inr (objectData', csv))))"

section \<open>The merge pipeline of init\<close>

text \<open>
  The normalization that runs between the merge and the emission: \<^verbatim>\<open>sortValues\<close>,
  then the sort by name and the version override at the head of \<^verbatim>\<open>writeFiles\<close>.
\<close>

definition normalize :: "(string \<rightharpoonup> json) \<Rightarrow> package_object \<Rightarrow> error + package_object" where
  "normalize cfg packageObject =
     (case sortValues packageObject of
        Inl e \<Rightarrow> Inl e
      | Inr sortedData \<Rightarrow>
          (case writeFiles cfg sortedData of
             Inl e \<Rightarrow> Inl e
           | Inr (objectData, csv) \<Rightarrow> Inr objectData))"

text \<open>
  \<^verbatim>\<open>init\<close> from \<^verbatim>\<open>createPackageXmlTemplate()\<close> to \<^verbatim>\<open>writeFiles(mergedData, "package")\<close>:
  merge into the template, sort the values, write. \<^verbatim>\<open>sortValues(undefined)\<close> raises.
\<close>

definition init_merge ::
  "(string \<rightharpoonup> json) \<Rightarrow> package_object option list \<Rightarrow> error + (package_object \<times> string)" where
  "init_merge cfg packageXmlData =
     (case snd (mergeObjects packageXmlData (Some createPackageXmlTemplate) []) of
        Inl e \<Rightarrow> Inl e
      | Inr None \<Rightarrow> Inl TypeError
      | Inr (Some mergedData) \<Rightarrow>
          (case sortValues mergedData of
             Inl e \<Rightarrow> Inl e
           | Inr mergedData' \<Rightarrow> writeFiles cfg mergedData'))"

section \<open>Process exit\<close>

text \<open>
  \<^verbatim>\<open>finish\<close> and the \<^verbatim>\<open>uncaughtException\<close> handler: what each logs, and the code it
  passes to \<^verbatim>\<open>process.exit\<close>.
\<close>

definition finish :: "logs \<Rightarrow> logs \<times> int" where
  "finish out =
     (log (crlf @ crlf @ replicate 48 (CHR ''-'') @ '' '') (log ''Process completed'' out), 1)"

definition uncaughtException :: "string \<Rightarrow> logs \<Rightarrow> logs \<times> int" where
  "uncaughtException err out = (log err out, 1)"

section \<open>Example inputs\<close>

text \<open>Two sources that both contribute to the type ApexClass, and a source without the
  key \<^verbatim>\<open>types\<close>.\<close>

definition sourceA :: "package_object option" where
  "sourceA = Some \<lparr>Package = Some \<lparr>version = JArray [JString ''48.0''],
     types = Some [\<lparr>name = ''ApexClass'', members = [''Foo'', ''Bar'']\<rparr>]\<rparr>\<rparr>"

definition sourceB :: "package_object option" where
  "sourceB = Some \<lparr>Package = Some \<lparr>version = JArray [JString ''48.0''],
     types = Some [\<lparr>name = ''ApexClass'', members = [''Bar'', ''Baz'']\<rparr>,
                   \<lparr>name = ''ApexPage'', members = [''Home'']\<rparr>]\<rparr>\<rparr>"

definition sourceBad :: "package_object option" where
  "sourceBad = Some \<lparr>Package = Some \<lparr>version = JArray [JString ''48.0''], types = None\<rparr>\<rparr>"

text \<open>An accumulator that lists a member twice, and one whose type names differ.\<close>

definition dupAccumulator :: package_object where
  "dupAccumulator = \<lparr>Package = Some \<lparr>version = JArray [JString ''48.0''],
     types = Some [\<lparr>name = ''CustomField'', members = [''Account.X'', ''Account.X'']\<rparr>]\<rparr>\<rparr>"

definition twoTypes :: package_object where
  "twoTypes = \<lparr>Package = Some \<lparr>version = JArray [JString ''48.0''],
     types = Some [\<lparr>name = ''ApexPage'', members = [''Home'']\<rparr>,
                   \<lparr>name = ''ApexClass'', members = [''Foo'']\<rparr>]\<rparr>\<rparr>"

text \<open>A package with an empty member, as an empty members element of a package.xml gives.\<close>

definition emptyMemberPackage :: package_object where
  "emptyMemberPackage = \<lparr>Package = Some \<lparr>version = JNumber 50,
     types = Some [\<lparr>name = ''ApexClass'', members = [[], ''Foo'']\<rparr>,
                   \<lparr>name = ''ApexPage'', members = [''Home'']\<rparr>]\<rparr>\<rparr>"

text \<open>A configuration file that asks for another version, and a parser that reads it.\<close>

definition configFileText :: string where
  "configFileText = ''{'' @ [CHR 0x22] @ ''forcePackageVersion'' @ [CHR 0x22] @ '': 55}''"

definition exampleParse :: "string \<Rightarrow> json option" where
  "exampleParse = [configFileText \<mapsto> JObject [(''forcePackageVersion'', JNumber 55)]]"

text \<open>Two types of the same name, as a package.xml with two types elements for
  ApexClass gives.\<close>

definition repeatedTypes :: "ptype list" where
  "repeatedTypes = [\<lparr>name = ''ApexClass'', members = [''Foo'']\<rparr>,
                    \<lparr>name = ''ApexClass'', members = [''Bar'']\<rparr>]"

section \<open>Auxiliary notions for the proofs\<close>

text \<open>The types held by a package object (none when a key is missing).\<close>

definition types_of :: "package_object \<Rightarrow> ptype list" where
  "types_of po = (case Package po of None \<Rightarrow> [] | Some pkg \<Rightarrow> (case types pkg of None \<Rightarrow> [] | Some ts \<Rightarrow> ts))"

text \<open>What \<^verbatim>\<open>appendTypesToPackage\<close> does to the list of types, and the fold of it over
  a list of incoming types.\<close>

definition append_types :: "string \<Rightarrow> string list \<Rightarrow> ptype list \<Rightarrow> ptype list" where
  "append_types typeName mems ts =
     (let ts' = map (\<lambda>t. if name t = typeName then t\<lparr>members := getUnique (members t @ mems)\<rparr> else t) ts
      in if typeName \<in> set (map name ts) then ts' else ts' @ [\<lparr>name = typeName, members = getUnique mems\<rparr>])"

definition merge_types :: "ptype list \<Rightarrow> ptype list \<Rightarrow> ptype list" where
  "merge_types gs ts = fold (\<lambda>g acc. append_types (name g) (members g) acc) gs ts"

text \<open>All members listed under a type name, and the types delivered by the files that
  pass the test of \<^verbatim>\<open>mergeObjects\<close>.\<close>

definition members_of :: "ptype list \<Rightarrow> string \<Rightarrow> string set" where
  "members_of ts n = (\<Union>t \<in> {t \<in> set ts. name t = n}. set (members t))"

definition incoming :: "package_object option list \<Rightarrow> ptype list" where
  "incoming files = concat (map (\<lambda>f. case file_types f of None \<Rightarrow> [] | Some ts \<Rightarrow> ts) files)"

text \<open>The normal form: members sorted, types sorted by name; and the content of a
  list of types, which forgets both orders.\<close>

definition normal_types :: "ptype list \<Rightarrow> ptype list" where
  "normal_types ts = sort_key name (map (\<lambda>t. t\<lparr>members := sort (members t)\<rparr>) ts)"

definition content :: "ptype list \<Rightarrow> (string \<times> string multiset) set" where
  "content ts = (\<lambda>t. (name t, mset (members t))) ` set ts"

text \<open>The version after the override of \<^verbatim>\<open>writeFiles\<close>, and the CSV text in closed
  form: a header line, then one line per index below the largest member count.\<close>

definition forced_version :: "(string \<rightharpoonup> json) \<Rightarrow> json \<Rightarrow> json" where
  "forced_version cfg v = (case cfg ''forcePackageVersion'' of None \<Rightarrow> v | Some w \<Rightarrow> if w = JNull then v else w)"

definition csv_cell :: "string list \<Rightarrow> nat \<Rightarrow> string" where
  "csv_cell col i =
     (case js_index col i of
        Some v \<Rightarrow> (if v \<noteq> [] then v @ '','' else empty_cell)
      | None \<Rightarrow> empty_cell)"

definition csv_row :: "string list list \<Rightarrow> nat \<Rightarrow> string" where
  "csv_row cols i = concat (map (\<lambda>col. csv_cell col i) cols) @ crlf"

definition csv_header :: "ptype list \<Rightarrow> string" where
  "csv_header ts = concat (map (\<lambda>t. name t @ '','') ts) @ crlf"

definition max_member_count :: "ptype list \<Rightarrow> nat" where
  "max_member_count ts = foldr (\<lambda>t. max (length (members t))) ts 0"

definition csv_text :: "ptype list \<Rightarrow> string" where
  "csv_text ts = csv_header ts @ concat (map (csv_row (map members ts)) [0..<max_member_count ts])"

text \<open>The two invariants of the accumulator: no member twice within a type, no type
  name twice.\<close>

definition unique_members :: "package_object \<Rightarrow> bool" where
  "unique_members po = list_all (\<lambda>t. distinct (members t)) (types_of po)"

definition unique_names :: "package_object \<Rightarrow> bool" where
  "unique_names po = distinct (map name (types_of po))"

text \<open>
  The table as the specification words it: row \<open>i\<close> holds the \<open>i\<close>-th member of each
  type, and the empty cell exactly when the type has fewer than \<open>i + 1\<close> members.
\<close>

definition claimed_csv_text :: "ptype list \<Rightarrow> string" where
  "claimed_csv_text ts =
     concat (map (\<lambda>t. name t @ '','') ts) @ crlf @
     concat (map (\<lambda>i. concat (map (\<lambda>t. if i < length (members t) then members t ! i @ '','' else empty_cell) ts) @ crlf)
               [0..<max_member_count ts])"

text \<open>A comparison function that agrees with a key into a linear order.\<close>

definition agrees :: "('a \<Rightarrow> 'a \<Rightarrow> int) \<Rightarrow> ('a \<Rightarrow> 'k::linorder) \<Rightarrow> bool" where
  "agrees comparefn f = (\<forall>x y. (comparefn x y < 0 \<longrightarrow> f x \<le> f y) \<and> (\<not> comparefn x y < 0 \<longrightarrow> f y \<le> f x))"

section \<open>Properties of the operations\<close>

lemma set_getUnique_loop: "set (getUnique_loop xs acc) = set acc \<union> set xs"
  by (induction xs arbitrary: acc) auto

lemma distinct_getUnique_loop: "distinct acc \<Longrightarrow> distinct (getUnique_loop xs acc)"
  by (induction xs arbitrary: acc) auto

lemma set_getUnique: "set (getUnique xs) = set xs"
  by (simp add: getUnique_def set_getUnique_loop)

lemma distinct_getUnique: "distinct (getUnique xs)"
  by (simp add: getUnique_def distinct_getUnique_loop)

lemma forEach_append_eq:
  "forEach_append n ms ts b =
     (map (\<lambda>t. if name t = n then t\<lparr>members := getUnique (members t @ ms)\<rparr> else t) ts,
      b \<or> n \<in> set (map name ts))"
  by (induction ts arbitrary: b) auto

lemma appendTypesToPackage_eq:
  "appendTypesToPackage n ms po =
     (case Package po of None \<Rightarrow> Inl TypeError
      | Some pkg \<Rightarrow> Inr (po\<lparr>Package := Some (pkg\<lparr>types := Some (append_types n ms (types_of po))\<rparr>)\<rparr>))"
  by (auto simp: appendTypesToPackage_def forEach_append_eq append_types_def types_of_def Let_def split: option.splits)

lemma map_name_update:
  "map name (map (\<lambda>t. if name t = n then t\<lparr>members := f t\<rparr> else t) ts) = map name ts"
  by (induction ts) simp_all

lemma map_name_append_types:
  "map name (append_types n ms ts) = (if n \<in> set (map name ts) then map name ts else map name ts @ [n])"
  unfolding append_types_def Let_def by (simp add: map_name_update del: set_map)

lemma distinct_names_append_types:
  "distinct (map name ts) \<Longrightarrow> distinct (map name (append_types n ms ts))"
  unfolding map_name_append_types by simp

lemma members_of_Nil: "members_of [] k = {}"
  by (simp add: members_of_def)

lemma members_of_Cons:
  "members_of (t # ts) k = (if name t = k then set (members t) else {}) \<union> members_of ts k"
  by (auto simp: members_of_def)

lemma members_of_append: "members_of (xs @ ys) k = members_of xs k \<union> members_of ys k"
  by (induction xs) (simp_all add: members_of_Nil members_of_Cons Un_assoc)

lemma members_of_update:
  "members_of (map (\<lambda>t. if name t = n then t\<lparr>members := getUnique (members t @ ms)\<rparr> else t) ts) k =
     members_of ts k \<union> (if k = n \<and> n \<in> set (map name ts) then set ms else {})"
  by (induction ts) (auto simp: members_of_Nil members_of_Cons set_getUnique)

lemma members_of_append_types:
  "members_of (append_types n ms ts) k = members_of ts k \<union> (if k = n then set ms else {})"
  unfolding append_types_def Let_def
  by (simp add: members_of_update members_of_append members_of_Cons members_of_Nil set_getUnique del: set_map)

lemma unique_members_append_types:
  "\<forall>t\<in>set ts. distinct (members t) \<Longrightarrow> \<forall>t\<in>set (append_types n ms ts). distinct (members t)"
  unfolding append_types_def Let_def by (auto simp: distinct_getUnique)

lemma merge_types_Nil: "merge_types [] ts = ts"
  by (simp add: merge_types_def)

lemma merge_types_Cons: "merge_types (g # gs) ts = merge_types gs (append_types (name g) (members g) ts)"
  by (simp add: merge_types_def)

lemma merge_types_append: "merge_types (gs @ hs) ts = merge_types hs (merge_types gs ts)"
  by (simp add: merge_types_def)

lemma distinct_names_merge_types:
  "distinct (map name ts) \<Longrightarrow> distinct (map name (merge_types gs ts))"
  by (induction gs arbitrary: ts) (simp_all add: merge_types_Nil merge_types_Cons distinct_names_append_types)

lemma set_names_merge_types:
  "set (map name (merge_types gs ts)) = set (map name ts) \<union> set (map name gs)"
proof (induction gs arbitrary: ts)
  case Nil
  show ?case by (simp add: merge_types_Nil)
next
  case (Cons g gs)
  have "set (map name (append_types (name g) (members g) ts)) = insert (name g) (set (map name ts))"
    unfolding map_name_append_types by auto
  then show ?case
    unfolding merge_types_Cons Cons.IH by auto
qed

lemma members_of_merge_types:
  "members_of (merge_types gs ts) k = members_of ts k \<union> members_of gs k"
proof (induction gs arbitrary: ts)
  case Nil
  show ?case by (simp add: merge_types_Nil members_of_Nil)
next
  case (Cons g gs)
  show ?case
    unfolding merge_types_Cons Cons.IH members_of_append_types members_of_Cons by auto
qed

lemma unique_members_merge_types:
  "\<forall>t\<in>set ts. distinct (members t) \<Longrightarrow> \<forall>t\<in>set (merge_types gs ts). distinct (members t)"
proof (induction gs arbitrary: ts)
  case Nil
  then show ?case by (simp add: merge_types_Nil)
next
  case (Cons g gs)
  from Cons.prems have "\<forall>t\<in>set (append_types (name g) (members g) ts). distinct (members t)"
    by (rule unique_members_append_types)
  then show ?case unfolding merge_types_Cons by (rule Cons.IH)
qed

lemma forEach_type_snd:
  "snd (forEach_type gs out \<lparr>Package = Some \<lparr>version = v, types = Some ts\<rparr>\<rparr>) =
     Inr \<lparr>Package = Some \<lparr>version = v, types = Some (merge_types gs ts)\<rparr>\<rparr>"
proof (induction gs arbitrary: out ts)
  case Nil
  show ?case by (simp add: merge_types_Nil)
next
  case (Cons g gs)
  show ?case
    by (simp add: appendTypesToPackage_eq types_of_def merge_types_Cons Cons.IH)
qed

lemma forEach_file_snd:
  "snd (forEach_file files i out (Some \<lparr>Package = Some \<lparr>version = v, types = Some ts\<rparr>\<rparr>)) =
     Inr (Some \<lparr>Package = Some \<lparr>version = v, types = Some (merge_types (incoming files) ts)\<rparr>\<rparr>)"
proof (induction files arbitrary: i out ts)
  case Nil
  show ?case by (simp add: incoming_def merge_types_Nil)
next
  case (Cons f files)
  show ?case
  proof (cases "file_types f")
    case None
    then show ?thesis
      using Cons.IH by (simp add: incoming_def)
  next
    case (Some gs)
    obtain out' where r: "forEach_type gs out \<lparr>Package = Some \<lparr>version = v, types = Some ts\<rparr>\<rparr> =
        (out', Inr \<lparr>Package = Some \<lparr>version = v, types = Some (merge_types gs ts)\<rparr>\<rparr>)"
      using forEach_type_snd [of gs out v ts] by (metis prod.collapse)
    have "incoming (f # files) = gs @ incoming files"
      using Some by (simp add: incoming_def)
    then show ?thesis
      using Some r Cons.IH by (simp add: merge_types_append)
  qed
qed

lemma mergeObjects_snd:
  "snd (mergeObjects files (Some \<lparr>Package = Some \<lparr>version = v, types = Some ts\<rparr>\<rparr>) out) =
     Inr (Some \<lparr>Package = Some \<lparr>version = v, types = Some (merge_types (incoming files) ts)\<rparr>\<rparr>)"
  by (simp add: mergeObjects_def forEach_file_snd)

lemma agreesD1: "agrees c f \<Longrightarrow> c x y < 0 \<Longrightarrow> f x \<le> f y"
  by (simp add: agrees_def)

lemma agreesD2: "agrees c f \<Longrightarrow> \<not> c x y < 0 \<Longrightarrow> f y \<le> f x"
  by (simp add: agrees_def)

lemma run_loop_bounds: "k \<le> run_loop c d p rest k \<and> run_loop c d p rest k \<le> k + length rest"
proof (induction rest arbitrary: p k)
  case Nil
  show ?case by simp
next
  case (Cons x rest)
  from Cons [where p = x and k = "Suc k"] show ?case by auto
qed

lemma run_loop_ascending:
  assumes "agrees c f"
  shows "sorted (map f (p # take (run_loop c False p rest k - k) rest))"
proof (induction rest arbitrary: p k)
  case Nil
  show ?case by simp
next
  case (Cons x rest)
  show ?case
  proof (cases "c x p < 0")
    case True
    then show ?thesis by simp
  next
    case False
    with assms have le: "f p \<le> f x" by (rule agreesD2)
    from run_loop_bounds [of "Suc k" c False x rest]
    have "run_loop c False x rest (Suc k) - k = Suc (run_loop c False x rest (Suc k) - Suc k)" by arith
    with False le Cons [of x "Suc k"] show ?thesis by auto
  qed
qed

lemma run_loop_descending:
  assumes "agrees c f"
  shows "sorted (rev (map f (p # take (run_loop c True p rest k - k) rest)))"
proof (induction rest arbitrary: p k)
  case Nil
  show ?case by simp
next
  case (Cons x rest)
  show ?case
  proof (cases "c x p < 0")
    case False
    then show ?thesis by simp
  next
    case True
    with assms have le: "f x \<le> f p" by (rule agreesD1)
    from run_loop_bounds [of "Suc k" c True x rest]
    have e: "run_loop c True x rest (Suc k) - k = Suc (run_loop c True x rest (Suc k) - Suc k)" by arith
    let ?t = "take (run_loop c True x rest (Suc k) - Suc k) rest"
    from Cons [of x "Suc k"] have s: "sorted (rev (map f ?t) @ [f x])" by simp
    then have "\<forall>y\<in>set (rev (map f ?t) @ [f x]). y \<le> f p"
      using le by (auto simp: sorted_append)
    with s have "sorted ((rev (map f ?t) @ [f x]) @ [f p])"
      by (subst sorted_append) auto
    with True e show ?thesis by simp
  qed
qed

lemma mset_take_drop: "mset (take n xs) + mset (drop n xs) = mset xs"
  by (subst mset_append [symmetric]) (simp only: append_take_drop_id)

lemma mset_reverse_prefix: "mset (rev (take n xs) @ drop n xs) = mset xs"
  by (simp add: mset_take_drop)

lemma CountAndMakeRun_mset:
  assumes "CountAndMakeRun c (h # l # rest) = (w, r)"
  shows "mset w = mset (h # l # rest)" and "2 \<le> r" and "r \<le> length (h # l # rest)"
proof -
  let ?d = "c l h < 0"
  let ?r = "run_loop c ?d l rest 2"
  from assms have r: "r = ?r" by (auto simp: Let_def split: if_splits)
  from run_loop_bounds [of 2 c ?d l rest] r
  show "2 \<le> r" and "r \<le> length (h # l # rest)" by simp_all
  from assms have "w = rev (take r (h # l # rest)) @ drop r (h # l # rest) \<or> w = h # l # rest"
    unfolding r by (auto simp: Let_def split: if_splits)
  then show "mset w = mset (h # l # rest)"
    using mset_reverse_prefix [of r "h # l # rest"] by auto
qed

lemma CountAndMakeRun_sorted:
  assumes a: "agrees c f" and e: "CountAndMakeRun c (h # l # rest) = (w, r)"
  shows "sorted (map f (take r w))"
proof -
  let ?r = "run_loop c (c l h < 0) l rest 2"
  from e have r: "r = ?r" by (auto simp: Let_def split: if_splits)
  from run_loop_bounds [of 2 c "c l h < 0" l rest]
  have b: "2 \<le> ?r" "?r \<le> length (h # l # rest)" by simp_all
  then have t: "take ?r (h # l # rest) = h # l # take (?r - 2) rest"
    by (cases ?r) (auto simp: take_Cons split: nat.splits)
  show ?thesis
  proof (cases "c l h < 0")
    case False
    with a have le: "f h \<le> f l" by (rule agreesD2)
    from False e have w: "w = h # l # rest" by (auto simp: Let_def)
    from run_loop_ascending [OF a, of l rest 2] False
    have "sorted (map f (l # take (?r - 2) rest))" by simp
    with le have "sorted (map f (h # l # take (?r - 2) rest))" by auto
    with t show ?thesis unfolding r w by simp
  next
    case True
    with a have le: "f l \<le> f h" by (rule agreesD1)
    from True e have w: "w = rev (take ?r (h # l # rest)) @ drop ?r (h # l # rest)"
      by (auto simp: Let_def)
    from b have "take ?r w = rev (take ?r (h # l # rest))"
      unfolding w by simp
    moreover
    from run_loop_descending [OF a, of l rest 2] True
    have s: "sorted (rev (map f (l # take (?r - 2) rest)))" by simp
    then have "\<forall>y\<in>set (rev (map f (l # take (?r - 2) rest))). y \<le> f h"
      using le by (auto simp: sorted_append)
    with s have "sorted (rev (map f (l # take (?r - 2) rest)) @ [f h])"
      by (subst sorted_append) auto
    then have "sorted (map f (rev (take ?r (h # l # rest))))"
      unfolding t by (simp add: rev_map)
    ultimately show ?thesis unfolding r by simp
  qed
qed

lemma find_insertion_bounds:
  "left \<le> right \<Longrightarrow> left \<le> find_insertion c p s left right \<and> find_insertion c p s left right \<le> right"
proof (induction c p s left right rule: find_insertion.induct)
  case (1 c p s left right)
  show ?case
  proof (cases "left < right")
    case False
    with "1.prems" show ?thesis by (subst (1 2) find_insertion.simps) simp
  next
    case True
    let ?mid = "left + (right - left) div 2"
    from True have m: "left \<le> ?mid" "?mid < right" by auto
    show ?thesis
    proof (cases "c p (s ! ?mid) < 0")
      case lt: True
      from "1.IH"(1) [OF True refl lt] m have "left \<le> find_insertion c p s left ?mid \<and> find_insertion c p s left ?mid \<le> ?mid"
        by simp
      with True lt m show ?thesis by (subst (1 2) find_insertion.simps) (simp add: Let_def)
    next
      case ge: False
      from "1.IH"(2) [OF True refl ge] m
      have "?mid + 1 \<le> find_insertion c p s (?mid + 1) right \<and> find_insertion c p s (?mid + 1) right \<le> right"
        by simp
      with True ge m show ?thesis by (subst (1 2) find_insertion.simps) (simp add: Let_def)
    qed
  qed
qed

lemma find_insertion_split:
  assumes a: "agrees c f" and s: "sorted (map f xs)"
  shows "left \<le> right \<Longrightarrow> right \<le> length xs \<Longrightarrow>
     (\<forall>i<left. f (xs ! i) \<le> f p) \<Longrightarrow> (\<forall>i. right \<le> i \<and> i < length xs \<longrightarrow> f p \<le> f (xs ! i)) \<Longrightarrow>
     (\<forall>i<find_insertion c p xs left right. f (xs ! i) \<le> f p)
     \<and> (\<forall>i. find_insertion c p xs left right \<le> i \<and> i < length xs \<longrightarrow> f p \<le> f (xs ! i))"
proof (induction "right - left" arbitrary: left right rule: less_induct)
  case less
  show ?case
  proof (cases "left < right")
    case False
    with less.prems have "left = right" by simp
    with less.prems False show ?thesis by (subst (1 2) find_insertion.simps) simp
  next
    case True
    let ?mid = "left + (right - left) div 2"
    from True less.prems have m: "left \<le> ?mid" "?mid < right" "?mid < length xs" by auto
    have mono: "f (xs ! i) \<le> f (xs ! j)" if "i \<le> j" "j < length xs" for i j
      using s that by (simp add: sorted_iff_nth_mono)
    show ?thesis
    proof (cases "c p (xs ! ?mid) < 0")
      case lt: True
      with a have le: "f p \<le> f (xs ! ?mid)" by (rule agreesD1)
      have hi: "\<forall>i. ?mid \<le> i \<and> i < length xs \<longrightarrow> f p \<le> f (xs ! i)"
        using le mono by (meson order_trans)
      from m have d: "?mid - left < right - left" by arith
      from less.hyps [OF d] m less.prems hi
      have "(\<forall>i<find_insertion c p xs left ?mid. f (xs ! i) \<le> f p)
          \<and> (\<forall>i. find_insertion c p xs left ?mid \<le> i \<and> i < length xs \<longrightarrow> f p \<le> f (xs ! i))"
        by simp
      with True lt show ?thesis by (subst (1 2) find_insertion.simps) (simp add: Let_def)
    next
      case ge: False
      with a have le: "f (xs ! ?mid) \<le> f p" by (rule agreesD2)
      have lo: "\<forall>i<?mid + 1. f (xs ! i) \<le> f p"
      proof (intro allI impI)
        fix i assume "i < ?mid + 1"
        then have "i \<le> ?mid" by simp
        with m have "f (xs ! i) \<le> f (xs ! ?mid)" by (intro mono) simp_all
        with le show "f (xs ! i) \<le> f p" by simp
      qed
      from m have d: "right - (?mid + 1) < right - left" by arith
      from m have "?mid + 1 \<le> right" by simp
      from less.hyps [OF d this] less.prems lo
      have "(\<forall>i<find_insertion c p xs (?mid + 1) right. f (xs ! i) \<le> f p)
          \<and> (\<forall>i. find_insertion c p xs (?mid + 1) right \<le> i \<and> i < length xs \<longrightarrow> f p \<le> f (xs ! i))"
        by simp
      with True ge show ?thesis by (subst (1 2) find_insertion.simps) (simp add: Let_def)
    qed
  qed
qed

lemma sorted_insert_at:
  assumes s: "sorted (map f xs)" and n: "n \<le> length xs"
    and lo: "\<forall>i<n. f (xs ! i) \<le> f p"
    and hi: "\<forall>i. n \<le> i \<and> i < length xs \<longrightarrow> f p \<le> f (xs ! i)"
  shows "sorted (map f (take n xs @ p # drop n xs))"
proof -
  have t: "sorted (map f (take n xs))" using s by (simp add: sorted_map sorted_wrt_take)
  have d: "sorted (map f (drop n xs))" using s by (simp add: sorted_map sorted_wrt_drop)
  have a: "\<forall>x\<in>set (take n xs). f x \<le> f p"
    using lo n by (auto simp: in_set_conv_nth)
  have b: "\<forall>y\<in>set (drop n xs). f p \<le> f y"
    using hi n by (auto simp: in_set_conv_nth)
  from a b have "\<forall>x\<in>set (take n xs). \<forall>y\<in>set (drop n xs). f x \<le> f y"
    by (meson order_trans)
  with t d a b show ?thesis
    by (auto simp: sorted_append)
qed

lemma BinaryInsertionSort_sorted:
  assumes a: "agrees c f"
  shows "sorted (map f pre) \<Longrightarrow> sorted (map f (BinaryInsertionSort c pre rest))"
proof (induction rest arbitrary: pre)
  case Nil
  then show ?case by simp
next
  case (Cons p rest)
  let ?n = "find_insertion c p pre 0 (length pre)"
  from find_insertion_bounds [of 0 "length pre" c p pre] have n: "?n \<le> length pre" by simp
  have "\<forall>i. length pre \<le> i \<and> i < length pre \<longrightarrow> f p \<le> f (pre ! i)" by auto
  with find_insertion_split [OF a Cons.prems, of 0 "length pre" p]
  have "(\<forall>i<?n. f (pre ! i) \<le> f p) \<and> (\<forall>i. ?n \<le> i \<and> i < length pre \<longrightarrow> f p \<le> f (pre ! i))"
    by simp
  with Cons.prems n have "sorted (map f (take ?n pre @ p # drop ?n pre))"
    by (intro sorted_insert_at) simp_all
  then have "sorted (map f (BinaryInsertionSort c (take ?n pre @ p # drop ?n pre) rest))"
    by (rule Cons.IH)
  then show ?case by (simp add: Let_def)
qed

lemma BinaryInsertionSort_mset:
  "mset (BinaryInsertionSort c pre rest) = mset pre + mset rest"
proof (induction rest arbitrary: pre)
  case Nil
  show ?case by simp
next
  case (Cons p rest)
  let ?n = "find_insertion c p pre 0 (length pre)"
  have "mset (take ?n pre @ p # drop ?n pre) = add_mset p (mset pre)"
    by (simp add: mset_take_drop)
  then show ?case by (simp add: Let_def Cons.IH)
qed

lemma Array_sort_mset: "mset (Array_sort c xs) = mset xs"
proof (cases "length xs < 2")
  case True
  then show ?thesis by (simp add: Array_sort_def)
next
  case False
  then obtain h l rest where xs: "xs = h # l # rest"
    by (cases xs; cases "tl xs") auto
  obtain w r where e: "CountAndMakeRun c (h # l # rest) = (w, r)"
    by (cases "CountAndMakeRun c (h # l # rest)")
  from CountAndMakeRun_mset(1) [OF e] have "mset (take r w) + mset (drop r w) = mset (h # l # rest)"
    by (simp only: mset_take_drop)
  with e xs show ?thesis
    by (simp add: Array_sort_def BinaryInsertionSort_mset)
qed

lemma Array_sort_sorted:
  assumes a: "agrees c f"
  shows "sorted (map f (Array_sort c xs))"
proof (cases "length xs < 2")
  case True
  then have "xs = [] \<or> (\<exists>x. xs = [x])" by (cases xs; cases "tl xs") auto
  then show ?thesis using True by (auto simp: Array_sort_def)
next
  case False
  then obtain h l rest where xs: "xs = h # l # rest"
    by (cases xs; cases "tl xs") auto
  obtain w r where e: "CountAndMakeRun c (h # l # rest) = (w, r)"
    by (cases "CountAndMakeRun c (h # l # rest)")
  from CountAndMakeRun_sorted [OF a e] have "sorted (map f (take r w))" .
  then have "sorted (map f (BinaryInsertionSort c (take r w) (drop r w)))"
    by (rule BinaryInsertionSort_sorted [OF a])
  with e xs show ?thesis by (simp add: Array_sort_def)
qed

lemma agrees_default_compare: "agrees default_compare (\<lambda>x. x)"
  by (auto simp: agrees_def default_compare_def)

lemma Array_sort_default_compare: "Array_sort default_compare xs = sort xs"
proof -
  have "sorted (map (\<lambda>x. x) (Array_sort default_compare xs))"
    by (rule Array_sort_sorted [OF agrees_default_compare])
  then have "sorted (Array_sort default_compare xs)" by simp
  with Array_sort_mset [of default_compare xs] show ?thesis
    by (intro properties_for_sort [symmetric]) simp_all
qed

lemma agrees_compare_names: "agrees compare_names name"
  by (auto simp: agrees_def compare_names_def)

lemma Array_sort_compare_names:
  assumes "distinct (map name xs)"
  shows "Array_sort compare_names xs = sort_key name xs"
proof (rule map_sorted_distinct_set_unique [where f = name])
  have m: "mset (Array_sort compare_names xs) = mset xs" by (rule Array_sort_mset)
  then have s: "set (Array_sort compare_names xs) = set xs" by (rule mset_eq_setD)
  from assms have "inj_on name (set xs)" by (simp add: distinct_map)
  with s show "inj_on name (set (Array_sort compare_names xs) \<union> set (sort_key name xs))" by simp
  show "sorted (map name (Array_sort compare_names xs))"
    by (rule Array_sort_sorted [OF agrees_compare_names])
  from m have "image_mset name (mset (Array_sort compare_names xs)) = image_mset name (mset xs)" by simp
  then have "mset (map name (Array_sort compare_names xs)) = mset (map name xs)" by simp
  then have "distinct (map name (Array_sort compare_names xs)) = distinct (map name xs)"
    by (rule mset_eq_imp_distinct_iff)
  with assms show "distinct (map name (Array_sort compare_names xs))" by simp
  show "sorted (map name (sort_key name xs))" by simp
  from assms show "distinct (map name (sort_key name xs))" by (simp add: distinct_map)
  from s show "set (Array_sort compare_names xs) = set (sort_key name xs)" by simp
qed

lemma set_normal_types: "set (normal_types ts) = (\<lambda>t. t\<lparr>members := sort (members t)\<rparr>) ` set ts"
  by (simp add: normal_types_def)

lemma map_name_sort_members: "map name (map (\<lambda>t. t\<lparr>members := f t\<rparr>) ts) = map name ts"
  by (induction ts) simp_all

lemma sorted_names_normal_types: "sorted (map name (normal_types ts))"
  by (simp add: normal_types_def del: map_map)

lemma distinct_names_sort_key:
  "distinct (map name (sort_key name ts)) = distinct (map name ts)"
  by (simp add: distinct_map)

lemma distinct_names_normal_types:
  "distinct (map name (normal_types ts)) = distinct (map name ts)"
  unfolding normal_types_def distinct_names_sort_key map_name_sort_members ..

lemma sort_cong_mset: "mset xs = mset ys \<Longrightarrow> sort xs = sort (ys :: string list)"
  by (rule properties_for_sort) simp_all

lemma normal_image_subset:
  assumes "content ts1 \<subseteq> content ts2"
  shows "(\<lambda>t. t\<lparr>members := sort (members t)\<rparr>) ` set ts1 \<subseteq> (\<lambda>t. t\<lparr>members := sort (members t)\<rparr>) ` set ts2"
proof
  fix r assume "r \<in> (\<lambda>t. t\<lparr>members := sort (members t)\<rparr>) ` set ts1"
  then obtain t1 where t1: "t1 \<in> set ts1" and r: "r = t1\<lparr>members := sort (members t1)\<rparr>" by auto
  from t1 have "(name t1, mset (members t1)) \<in> content ts1" by (auto simp: content_def)
  with assms have "(name t1, mset (members t1)) \<in> content ts2" by auto
  then obtain t2 where t2: "t2 \<in> set ts2" and n: "name t2 = name t1"
      and m: "mset (members t2) = mset (members t1)"
    by (auto simp: content_def)
  have "sort (members t2) = sort (members t1)" using m by (rule sort_cong_mset)
  with n have "t2\<lparr>members := sort (members t2)\<rparr> = r" unfolding r by simp
  with t2 show "r \<in> (\<lambda>t. t\<lparr>members := sort (members t)\<rparr>) ` set ts2" by auto
qed

lemma normal_types_unique:
  assumes d1: "distinct (map name ts1)" and d2: "distinct (map name ts2)"
    and c: "content ts1 = content ts2"
  shows "normal_types ts1 = normal_types ts2"
proof (rule map_sorted_distinct_set_unique [where f = name])
  have s: "set (normal_types ts1) = set (normal_types ts2)"
    unfolding set_normal_types using normal_image_subset [of ts1 ts2] normal_image_subset [of ts2 ts1] c
    by auto
  have "inj_on name (set (normal_types ts1))"
    using d1 distinct_names_normal_types [of ts1] by (simp add: distinct_map)
  then show "inj_on name (set (normal_types ts1) \<union> set (normal_types ts2))"
    using s by simp
  show "set (normal_types ts1) = set (normal_types ts2)" by (rule s)
qed (simp_all add: sorted_names_normal_types distinct_names_normal_types d1 d2)

lemma normal_types_idem: "normal_types (normal_types ts) = normal_types ts"
proof -
  have "map (\<lambda>t. t\<lparr>members := sort (members t)\<rparr>) (normal_types ts) = normal_types ts"
    by (rule map_idI) (auto simp: set_normal_types sorted_sort_id)
  then have "normal_types (normal_types ts) = sort_key name (normal_types ts)"
    by (simp add: normal_types_def)
  also have "\<dots> = normal_types ts"
    by (rule sort_key_id_if_sorted) (rule sorted_names_normal_types)
  finally show ?thesis .
qed

lemma members_of_distinct:
  assumes "distinct (map name ts)" and "t \<in> set ts"
  shows "members_of ts (name t) = set (members t)"
proof -
  from assms(1) have "inj_on name (set ts)" by (simp add: distinct_map)
  with assms(2) have "{t' \<in> set ts. name t' = name t} = {t}"
    by (auto dest: inj_onD)
  then show ?thesis by (simp add: members_of_def)
qed

lemma members_of_cong: "set gs = set hs \<Longrightarrow> members_of gs = members_of hs"
  by (simp add: members_of_def fun_eq_iff)

lemma content_merge_types:
  "content (merge_types gs []) = (\<lambda>n. (n, mset_set (members_of gs n))) ` set (map name gs)"
proof -
  let ?M = "merge_types gs []"
  have d: "distinct (map name ?M)" by (rule distinct_names_merge_types) simp
  have u: "\<forall>t\<in>set ?M. distinct (members t)" by (rule unique_members_merge_types) simp
  have n: "set (map name ?M) = set (map name gs)" by (simp add: set_names_merge_types del: set_map)
  have m: "mset (members t) = mset_set (members_of gs (name t))" if "t \<in> set ?M" for t
  proof -
    have "members_of gs (name t) = members_of ?M (name t)"
      by (simp add: members_of_merge_types members_of_Nil)
    also have "\<dots> = set (members t)" using d that by (rule members_of_distinct)
    finally show ?thesis using u that by (simp add: mset_set_set)
  qed
  have "content ?M = (\<lambda>t. (name t, mset_set (members_of gs (name t)))) ` set ?M"
    unfolding content_def using m by (intro image_cong) auto
  also have "\<dots> = (\<lambda>n. (n, mset_set (members_of gs n))) ` (name ` set ?M)"
    by (simp add: image_image)
  also have "name ` set ?M = set (map name gs)" using n by simp
  finally show ?thesis .
qed

lemma set_incoming:
  "set (incoming files) = (\<Union>f\<in>set files. set (case file_types f of None \<Rightarrow> [] | Some ts \<Rightarrow> ts))"
  by (simp add: incoming_def)

lemma normal_merge_cong:
  assumes "set files' = set files"
  shows "normal_types (merge_types (incoming files') []) = normal_types (merge_types (incoming files) [])"
proof (rule normal_types_unique)
  have s: "set (incoming files') = set (incoming files)"
    unfolding set_incoming using assms by simp
  show "content (merge_types (incoming files') []) = content (merge_types (incoming files) [])"
    unfolding content_merge_types using s members_of_cong [OF s] by simp
qed (simp_all add: distinct_names_merge_types)

lemma header_loop_eq:
  "header_loop ts csv cols lim =
     (csv @ concat (map (\<lambda>t. name t @ '','') ts), cols @ map members ts, max lim (max_member_count ts))"
  by (induction ts arbitrary: csv cols lim) (auto simp: max_member_count_def)

lemma row_loop_eq: "row_loop cols i row = row @ concat (map (\<lambda>col. csv_cell col i) cols)"
  by (induction cols arbitrary: row) (auto simp: csv_cell_def split: option.splits)

lemma rows_loop_eq:
  "rows_loop cols i lim csv = csv @ concat (map (csv_row cols) [i..<lim])"
proof (induction cols i lim csv rule: rows_loop.induct)
  case (1 cols i lim csv)
  show ?case
  proof (cases "i < lim")
    case True
    then have "[i..<lim] = i # [Suc i..<lim]" by (rule upt_conv_Cons)
    moreover have "row_loop cols i [] @ crlf = csv_row cols i"
      by (simp add: csv_row_def row_loop_eq)
    ultimately show ?thesis
      using True "1.IH" by (subst rows_loop.simps) simp
  next
    case False
    then show ?thesis by (subst rows_loop.simps) simp
  qed
qed

lemma jsonToCSV_eq:
  "jsonToCSV \<lparr>Package = Some \<lparr>version = v, types = Some ts\<rparr>\<rparr> = Inr (csv_text ts)"
  by (simp add: jsonToCSV_def header_loop_eq rows_loop_eq csv_text_def csv_header_def)

lemma sortValues_eq:
  "sortValues \<lparr>Package = Some \<lparr>version = v, types = Some ts\<rparr>\<rparr> =
     Inr \<lparr>Package = Some \<lparr>version = v, types = Some (map (\<lambda>t. t\<lparr>members := sort (members t)\<rparr>) ts)\<rparr>\<rparr>"
  by (simp add: sortValues_def Array_sort_default_compare)

lemma writeFiles_eq:
  assumes "distinct (map name ts)"
  shows "writeFiles cfg \<lparr>Package = Some \<lparr>version = v, types = Some ts\<rparr>\<rparr> =
     Inr (\<lparr>Package = Some \<lparr>version = forced_version cfg v, types = Some (sort_key name ts)\<rparr>\<rparr>,
          csv_text (sort_key name ts))"
  by (simp add: writeFiles_def Array_sort_compare_names [OF assms] forced_version_def Let_def jsonToCSV_eq
      split: option.splits)

lemma init_merge_eq:
  "init_merge cfg files =
     Inr (\<lparr>Package = Some \<lparr>version = forced_version cfg (JArray [JString ''48.0'']),
               types = Some (normal_types (merge_types (incoming files) []))\<rparr>\<rparr>,
          csv_text (normal_types (merge_types (incoming files) [])))"
proof -
  have "distinct (map name (merge_types (incoming files) []))"
    by (rule distinct_names_merge_types) simp
  then have "distinct (map name (map (\<lambda>t. t\<lparr>members := sort (members t)\<rparr>) (merge_types (incoming files) [])))"
    by (simp only: map_name_sort_members)
  then show ?thesis
    by (simp add: init_merge_def createPackageXmlTemplate_def mergeObjects_snd sortValues_eq writeFiles_eq
        normal_types_def)
qed

lemma appendTypesToPackage_Some:
  assumes "Package po \<noteq> None"
  shows "\<exists>po'. appendTypesToPackage n ms po = Inr po' \<and> Package po' \<noteq> None
           \<and> types_of po' = append_types n ms (types_of po)"
  using assms by (auto simp: appendTypesToPackage_eq types_of_def)

lemma forEach_type_Some:
  assumes "Package po \<noteq> None"
  shows "\<exists>out' po'. forEach_type gs out po = (out', Inr po') \<and> Package po' \<noteq> None
           \<and> types_of po' = merge_types gs (types_of po)"
  using assms
proof (induction gs arbitrary: out po)
  case Nil
  then show ?case by (simp add: merge_types_Nil)
next
  case (Cons g gs)
  from appendTypesToPackage_Some [OF Cons.prems, of "name g" "members g"]
  obtain po1 where a: "appendTypesToPackage (name g) (members g) po = Inr po1"
    and p: "Package po1 \<noteq> None"
    and t: "types_of po1 = append_types (name g) (members g) (types_of po)" by blast
  from Cons.IH [OF p] show ?case
    by (simp add: a t merge_types_Cons)
qed

lemma forEach_file_Some:
  assumes "Package po \<noteq> None"
  shows "\<exists>out' po'. forEach_file files i out (Some po) = (out', Inr (Some po')) \<and> Package po' \<noteq> None
           \<and> types_of po' = merge_types (incoming files) (types_of po)"
  using assms
proof (induction files arbitrary: i out po)
  case Nil
  then show ?case by (simp add: incoming_def merge_types_Nil)
next
  case (Cons f files)
  show ?case
  proof (cases "file_types f")
    case None
    then have "incoming (f # files) = incoming files" by (simp add: incoming_def)
    with None Cons.IH [OF Cons.prems] show ?thesis by simp
  next
    case (Some gs)
    from forEach_type_Some [OF Cons.prems, of gs out]
    obtain out1 po1 where a: "forEach_type gs out po = (out1, Inr po1)"
      and p: "Package po1 \<noteq> None"
      and t: "types_of po1 = merge_types gs (types_of po)" by blast
    have "incoming (f # files) = gs @ incoming files" using Some by (simp add: incoming_def)
    with Cons.IH [OF p, of "Suc i" out1] show ?thesis
      by (simp add: Some a t merge_types_append)
  qed
qed

lemma forEach_type_no_Package:
  assumes "Package po = None" and "forEach_type gs out po = (out', Inr po')"
  shows "po' = po"
  using assms by (cases gs) (simp_all add: appendTypesToPackage_eq)

lemma forEach_file_no_Package:
  assumes "Package po = None" and "forEach_file files i out (Some po) = (out', Inr (Some po'))"
  shows "po' = po"
  using assms
proof (induction files arbitrary: i out)
  case Nil
  then show ?case by simp
next
  case (Cons f files)
  show ?case
  proof (cases "file_types f")
    case None
    with Cons show ?thesis by simp
  next
    case (Some gs)
    obtain out1 r where a: "forEach_type gs out po = (out1, r)" by (cases "forEach_type gs out po")
    show ?thesis
    proof (cases r)
      case (Inl e)
      with Cons.prems Some a show ?thesis by simp
    next
      case (Inr po1)
      with a Cons.prems(1) have "po1 = po" by (auto dest: forEach_type_no_Package)
      with Cons Some a Inr show ?thesis by simp
    qed
  qed
qed

lemma normalize_eq:
  assumes "distinct (map name ts)"
  shows "normalize cfg \<lparr>Package = Some \<lparr>version = v, types = Some ts\<rparr>\<rparr> =
     Inr \<lparr>Package = Some \<lparr>version = forced_version cfg v, types = Some (normal_types ts)\<rparr>\<rparr>"
proof -
  from assms have "distinct (map name (map (\<lambda>t. t\<lparr>members := sort (members t)\<rparr>) ts))"
    by (simp only: map_name_sort_members)
  then show ?thesis
    by (simp add: normalize_def sortValues_eq writeFiles_eq normal_types_def)
qed

lemma package_object_cases:
  obtains "Package po = None"
  | v where "po = \<lparr>Package = Some \<lparr>version = v, types = None\<rparr>\<rparr>"
  | v ts where "po = \<lparr>Package = Some \<lparr>version = v, types = Some ts\<rparr>\<rparr>"
proof (cases po)
  case (fields p)
  show ?thesis
  proof (cases p)
    case None
    with fields that(1) show ?thesis by simp
  next
    case (Some pkg)
    obtain v t where pkg: "pkg = \<lparr>version = v, types = t\<rparr>" by (cases pkg) simp
    show ?thesis
    proof (cases t)
      case None
      with fields Some pkg that(2) show ?thesis by simp
    next
      case (Some ts)
      with fields \<open>p = Some pkg\<close> pkg that(3) show ?thesis by simp
    qed
  qed
qed

lemma normalize_Inr:
  assumes "normalize cfg po = Inr po'" and "distinct (map name (types_of po))"
  shows "types_of po' = normal_types (types_of po)"
proof (cases po rule: package_object_cases)
  case 1
  with assms show ?thesis by (simp add: normalize_def sortValues_def)
next
  case (2 v)
  with assms show ?thesis by (simp add: normalize_def sortValues_def)
next
  case (3 v ts)
  with assms(2) have "distinct (map name ts)" by (simp add: types_of_def)
  from normalize_eq [OF this, of cfg v] assms(1) 3 show ?thesis by (auto simp: types_of_def)
qed

lemma forced_version_idem: "forced_version cfg (forced_version cfg v) = forced_version cfg v"
  by (simp add: forced_version_def split: option.splits)

lemma content_of_mset:
  fixes ts ts' :: "ptype list"
  assumes "mset (map (\<lambda>t. (name t, mset (members t))) ts') = mset (map (\<lambda>t. (name t, mset (members t))) ts)"
  shows "content ts' = content ts" and "distinct (map name ts') = distinct (map name ts)"
proof -
  from assms have "set (map (\<lambda>t. (name t, mset (members t))) ts') = set (map (\<lambda>t. (name t, mset (members t))) ts)"
    by (rule mset_eq_setD)
  then show "content ts' = content ts" by (simp add: content_def)
  from assms have "image_mset fst (mset (map (\<lambda>t. (name t, mset (members t))) ts'))
      = image_mset fst (mset (map (\<lambda>t. (name t, mset (members t))) ts))"
    by (rule arg_cong [where f = "image_mset fst"])
  then have "mset (map name ts') = mset (map name ts)"
    by (simp add: image_mset.compositionality comp_def)
  then show "distinct (map name ts') = distinct (map name ts)" by (rule mset_eq_imp_distinct_iff)
qed

lemma forEach_type_snd_log:
  "snd (forEach_type gs out po) = snd (forEach_type gs out' po)"
proof (induction gs arbitrary: out out' po)
  case Nil
  show ?case by simp
next
  case (Cons g gs)
  show ?case
    by (cases "appendTypesToPackage (name g) (members g) po") (simp_all add: Cons.IH [of "log _ out" _ "log _ out'"])
qed

lemma forEach_file_snd_log:
  "snd (forEach_file files i out acc) = snd (forEach_file files j out' acc)"
proof (induction files arbitrary: i j out out' acc)
  case Nil
  show ?case by simp
next
  case (Cons f files)
  let ?po = "case acc of None \<Rightarrow> \<lparr>Package = None\<rparr> | Some p \<Rightarrow> p"
  show ?case
  proof (cases "file_types f")
    case None
    then show ?thesis using Cons.IH by simp
  next
    case (Some gs)
    obtain o1 r1 where a: "forEach_type gs out ?po = (o1, r1)" by (cases "forEach_type gs out ?po")
    obtain o2 r2 where b: "forEach_type gs out' ?po = (o2, r2)" by (cases "forEach_type gs out' ?po")
    from forEach_type_snd_log [of gs out ?po out'] a b have r: "r2 = r1" by simp
    show ?thesis
    proof (cases r1)
      case (Inl e)
      with Some a b r show ?thesis by simp
    next
      case (Inr p)
      with Some a b r Cons.IH [of "Suc i" o1 "Some p" "Suc j" o2] show ?thesis by simp
    qed
  qed
qed

lemma forEach_file_append_Inl:
  "forEach_file xs i out acc = (o1, Inl e) \<Longrightarrow> forEach_file (xs @ ys) i out acc = (o1, Inl e)"
proof (induction xs arbitrary: i out acc)
  case Nil
  then show ?case by simp
next
  case (Cons f xs)
  let ?po = "case acc of None \<Rightarrow> \<lparr>Package = None\<rparr> | Some p \<Rightarrow> p"
  show ?case
  proof (cases "file_types f")
    case None
    with Cons show ?thesis by simp
  next
    case (Some gs)
    obtain o2 r2 where a: "forEach_type gs out ?po = (o2, r2)" by (cases "forEach_type gs out ?po")
    show ?thesis
    proof (cases r2)
      case (Inl e')
      with Some a Cons.prems show ?thesis by simp
    next
      case (Inr p)
      with Some a Cons show ?thesis by simp
    qed
  qed
qed

lemma forEach_file_append_Inr:
  "forEach_file xs i out acc = (o1, Inr a) \<Longrightarrow>
     forEach_file (xs @ ys) i out acc = forEach_file ys (i + length xs) o1 a"
proof (induction xs arbitrary: i out acc)
  case Nil
  then show ?case by simp
next
  case (Cons f xs)
  let ?po = "case acc of None \<Rightarrow> \<lparr>Package = None\<rparr> | Some p \<Rightarrow> p"
  show ?case
  proof (cases "file_types f")
    case None
    with Cons show ?thesis by simp
  next
    case (Some gs)
    obtain o2 r2 where b: "forEach_type gs out ?po = (o2, r2)" by (cases "forEach_type gs out ?po")
    show ?thesis
    proof (cases r2)
      case (Inl e')
      with Some b Cons.prems show ?thesis by simp
    next
      case (Inr p)
      with Some b Cons show ?thesis by simp
    qed
  qed
qed

lemma forEach_file_keeps_Some:
  "forEach_file xs i out (Some po) = (out', Inr acc') \<Longrightarrow> acc' \<noteq> None"
proof (induction xs arbitrary: i out po)
  case Nil
  then show ?case by auto
next
  case (Cons f xs)
  then show ?case
    by (auto split: option.splits prod.splits sum.splits)
qed

lemma log_mono: "set out \<subseteq> set (log item out)"
  by (auto simp: log_def)

lemma forEach_type_log_mono: "set out \<subseteq> set (fst (forEach_type gs out po))"
proof (induction gs arbitrary: out po)
  case Nil
  show ?case by simp
next
  case (Cons g gs)
  show ?case
  proof (cases "appendTypesToPackage (name g) (members g) po")
    case (Inl e)
    then show ?thesis by (auto simp: log_def)
  next
    case (Inr p)
    with Cons.IH [of "log (''Writing '' @ string_of_nat (length (members g)) @ '' members to '' @ name g) out" p]
    show ?thesis by (auto simp: log_def)
  qed
qed

lemma forEach_file_log_mono: "set out \<subseteq> set (fst (forEach_file files i out acc))"
proof (induction files arbitrary: i out acc)
  case Nil
  show ?case by simp
next
  case (Cons f files)
  let ?po = "case acc of None \<Rightarrow> \<lparr>Package = None\<rparr> | Some p \<Rightarrow> p"
  show ?case
  proof (cases "file_types f")
    case None
    with Cons.IH [of "log (''Malfomred or empty packaged file: '' @ string_of_nat i) out" "Suc i" "Some ?po"]
    show ?thesis by (auto simp: log_def)
  next
    case (Some gs)
    obtain o1 r1 where a: "forEach_type gs out ?po = (o1, r1)" by (cases "forEach_type gs out ?po")
    from forEach_type_log_mono [of out gs ?po] a have m: "set out \<subseteq> set o1" by simp
    show ?thesis
    proof (cases r1)
      case (Inl e)
      with Some a m show ?thesis by simp
    next
      case (Inr p)
      with Some a m Cons.IH [of o1 "Suc i" "Some p"] show ?thesis by auto
    qed
  qed
qed

lemma length_le_max_member_count: "t \<in> set ts \<Longrightarrow> length (members t) \<le> max_member_count ts"
  by (induction ts) (auto simp: max_member_count_def)

lemma max_member_count_Max:
  "max_member_count ts = Max (insert 0 (set (map (\<lambda>t. length (members t)) ts)))"
proof (induction ts)
  case Nil
  show ?case by (simp add: max_member_count_def)
next
  case (Cons t ts)
  have "Max (insert 0 (set (map (\<lambda>t. length (members t)) (t # ts))))
      = Max (insert (length (members t)) (insert 0 (set (map (\<lambda>t. length (members t)) ts))))"
    by (simp add: insert_commute)
  also have "\<dots> = max (length (members t)) (Max (insert 0 (set (map (\<lambda>t. length (members t)) ts))))"
    by (rule Max_insert) simp_all
  finally show ?case using Cons.IH by (simp add: max_member_count_def)
qed

lemma csv_cell_eq:
  "csv_cell col i = (if i < length col \<and> col ! i \<noteq> [] then col ! i @ '','' else empty_cell)"
  by (simp add: csv_cell_def js_index_def)

text \<open>
  Two scenarios, evaluated on the definitions taken from the source: two sources that
  share a type and a member, and the empty list of sources.
\<close>

lemma scenario_merge_sources:
  "init_merge config [sourceA, sourceB] =
     Inr (\<lparr>Package = Some \<lparr>version = JNumber 50,
            types = Some [\<lparr>name = ''ApexClass'', members = [''Bar'', ''Baz'', ''Foo'']\<rparr>,
                          \<lparr>name = ''ApexPage'', members = [''Home'']\<rparr>]\<rparr>\<rparr>,
          ''ApexClass,ApexPage,'' @ crlf @ ''Bar,Home,'' @ crlf
            @ ''Baz,'' @ empty_cell @ crlf @ ''Foo,'' @ empty_cell @ crlf)"
  by (simp add: init_merge_def mergeObjects_def sourceA_def sourceB_def createPackageXmlTemplate_def
      file_types_def appendTypesToPackage_def getUnique_def sortValues_def Array_sort_def Let_def
      find_insertion.simps default_compare_def writeFiles_def compare_names_def config_def
      jsonToCSV_def rows_loop.simps js_index_def crlf_def empty_cell_def)

lemma scenario_empty_source_list:
  "init_merge config [] =
     Inr (\<lparr>Package = Some \<lparr>version = JNumber 50, types = Some []\<rparr>\<rparr>, crlf)"
  by (simp add: init_merge_def mergeObjects_def createPackageXmlTemplate_def sortValues_def
      Array_sort_def writeFiles_def config_def jsonToCSV_def rows_loop.simps)

lemma covered_append_types_self:
  "\<exists>g\<in>set (append_types n ms ts). name g = n \<and> set ms \<subseteq> set (members g)"
proof (cases "n \<in> set (map name ts)")
  case False
  then show ?thesis by (simp add: append_types_def Let_def set_getUnique)
next
  case True
  then obtain g where g: "g \<in> set ts" "name g = n" by auto
  let ?g = "g\<lparr>members := getUnique (members g @ ms)\<rparr>"
  from g have "?g \<in> set (append_types n ms ts)"
    by (auto simp: append_types_def Let_def intro!: image_eqI [where x = g])
  moreover from g have "name ?g = n \<and> set ms \<subseteq> set (members ?g)"
    by (simp add: set_getUnique)
  ultimately show ?thesis by blast
qed

lemma covered_append_types_mono:
  assumes "\<exists>g\<in>set ts. name g = k \<and> M \<subseteq> set (members g)"
  shows "\<exists>g\<in>set (append_types n ms ts). name g = k \<and> M \<subseteq> set (members g)"
proof -
  from assms obtain g where g: "g \<in> set ts" "name g = k" "M \<subseteq> set (members g)" by blast
  let ?g = "if name g = n then g\<lparr>members := getUnique (members g @ ms)\<rparr> else g"
  from g(1) have "?g \<in> set (append_types n ms ts)"
    by (auto simp: append_types_def Let_def intro!: image_eqI [where x = g])
  moreover from g have "name ?g = k \<and> M \<subseteq> set (members ?g)"
    by (auto simp: set_getUnique)
  ultimately show ?thesis by blast
qed

lemma covered_merge_types_mono:
  "\<exists>g\<in>set ts. name g = k \<and> M \<subseteq> set (members g) \<Longrightarrow>
     \<exists>g\<in>set (merge_types gs ts). name g = k \<and> M \<subseteq> set (members g)"
proof (induction gs arbitrary: ts)
  case Nil
  then show ?case by (simp add: merge_types_Nil)
next
  case (Cons h gs)
  from Cons.prems have "\<exists>g\<in>set (append_types (name h) (members h) ts). name g = k \<and> M \<subseteq> set (members g)"
    by (rule covered_append_types_mono)
  then show ?case unfolding merge_types_Cons by (rule Cons.IH)
qed

lemma covered_merge_types:
  "t \<in> set gs \<Longrightarrow> \<exists>g\<in>set (merge_types gs ts). name g = name t \<and> set (members t) \<subseteq> set (members g)"
proof (induction gs arbitrary: ts)
  case Nil
  then show ?case by simp
next
  case (Cons h gs)
  show ?case
  proof (cases "t = h")
    case True
    have "\<exists>g\<in>set (append_types (name h) (members h) ts). name g = name h \<and> set (members h) \<subseteq> set (members g)"
      by (rule covered_append_types_self)
    then have "\<exists>g\<in>set (merge_types gs (append_types (name h) (members h) ts)).
        name g = name h \<and> set (members h) \<subseteq> set (members g)"
      by (rule covered_merge_types_mono)
    with True show ?thesis by (simp add: merge_types_Cons)
  next
    case False
    with Cons.prems have "t \<in> set gs" by simp
    then show ?thesis unfolding merge_types_Cons by (rule Cons.IH)
  qed
qed

lemma member_merge_types_origin:
  assumes "g \<in> set (merge_types gs ts)" and "m \<in> set (members g)"
  shows "(\<exists>t\<in>set ts. name t = name g \<and> m \<in> set (members t))
       \<or> (\<exists>t\<in>set gs. name t = name g \<and> m \<in> set (members t))"
proof -
  from assms have "m \<in> members_of (merge_types gs ts) (name g)"
    by (auto simp: members_of_def)
  then have "m \<in> members_of ts (name g) \<union> members_of gs (name g)"
    by (simp only: members_of_merge_types)
  then show ?thesis by (auto simp: members_of_def)
qed

lemma incoming_skip:
  "file_types bad = None \<Longrightarrow> incoming (xs @ bad # ys) = incoming (xs @ ys)"
  by (simp add: incoming_def)

lemma in_incoming_iff:
  "t \<in> set (incoming files) \<longleftrightarrow> (\<exists>f\<in>set files. \<exists>ts. file_types f = Some ts \<and> t \<in> set ts)"
proof
  assume "t \<in> set (incoming files)"
  then obtain f where f: "f \<in> set files"
      and t: "t \<in> set (case file_types f of None \<Rightarrow> [] | Some ts \<Rightarrow> ts)"
    unfolding set_incoming by blast
  from t obtain ts where "file_types f = Some ts" "t \<in> set ts"
    by (cases "file_types f") auto
  with f show "\<exists>f\<in>set files. \<exists>ts. file_types f = Some ts \<and> t \<in> set ts" by blast
next
  assume "\<exists>f\<in>set files. \<exists>ts. file_types f = Some ts \<and> t \<in> set ts"
  then obtain f ts where "f \<in> set files" "file_types f = Some ts" "t \<in> set ts" by blast
  then show "t \<in> set (incoming files)"
    unfolding set_incoming by force
qed

section \<open>The claims\<close>

text \<open>
  C1. Merging the files into the empty template and normalizing gives the same object
  and the same CSV text for every permutation of the list of files (files that fail
  the test of \<^verbatim>\<open>mergeObjects\<close> included), and the pipeline returns a result.
\<close>

theorem merge_order_independent:
  assumes "mset files' = mset files"
  shows "init_merge cfg files' = init_merge cfg files \<and> (\<exists>r. init_merge cfg files = Inr r)"
proof -
  from assms have "set files' = set files" by (rule mset_eq_setD)
  then have "normal_types (merge_types (incoming files') []) = normal_types (merge_types (incoming files) [])"
    by (rule normal_merge_cong)
  then show ?thesis
    by (simp add: init_merge_eq)
qed

theorem merge_order_independent_witness:
  "mset [sourceB, sourceBad, sourceA] = mset [sourceA, sourceB, sourceBad]
   \<and> init_merge config [sourceB, sourceBad, sourceA] = init_merge config [sourceA, sourceB, sourceBad]
   \<and> (\<exists>r. init_merge config [sourceA, sourceB, sourceBad] = Inr r)"
  using merge_order_independent [of "[sourceB, sourceBad, sourceA]" "[sourceA, sourceB, sourceBad]" config]
  by simp

text \<open>
  C2, amended. When no type of the accumulator lists a member twice, no type of the
  package returned by \<^verbatim>\<open>mergeObjects\<close> does, for every list of files; and an
  accumulator that has the key \<^verbatim>\<open>Package\<close> always gets a package back.
\<close>

theorem merge_members_unique:
  assumes "unique_members po"
  shows "(\<forall>po'. snd (mergeObjects files (Some po) out) = Inr (Some po') \<longrightarrow> unique_members po')
       \<and> (Package po \<noteq> None \<longrightarrow> (\<exists>po'. snd (mergeObjects files (Some po) out) = Inr (Some po')))"
proof (cases "Package po")
  case None
  have "po' = po" if "snd (mergeObjects files (Some po) out) = Inr (Some po')" for po'
    using that forEach_file_no_Package [OF None, of files 0 out "fst (mergeObjects files (Some po) out)" po']
    by (simp add: mergeObjects_def) (metis prod.collapse)
  with assms None show ?thesis by auto
next
  case (Some pkg)
  then have "Package po \<noteq> None" by simp
  from forEach_file_Some [OF this, of files 0 out]
  obtain out' po' where r: "mergeObjects files (Some po) out = (out', Inr (Some po'))"
    and t: "types_of po' = merge_types (incoming files) (types_of po)"
    by (auto simp: mergeObjects_def)
  from assms have "\<forall>t\<in>set (types_of po). distinct (members t)"
    by (simp add: unique_members_def list_all_iff)
  then have "\<forall>t\<in>set (merge_types (incoming files) (types_of po)). distinct (members t)"
    by (rule unique_members_merge_types)
  then have "unique_members po'"
    by (simp add: unique_members_def list_all_iff t)
  with r show ?thesis by simp
qed

text \<open>
  C2, at the empty template and two sources that both list the member Bar under
  ApexClass.
\<close>

theorem merge_members_unique_witness:
  "unique_members createPackageXmlTemplate
   \<and> (\<exists>po'. snd (mergeObjects [sourceA, sourceB] (Some createPackageXmlTemplate) []) = Inr (Some po')
          \<and> unique_members po')"
proof -
  have u: "unique_members createPackageXmlTemplate"
    by (simp add: unique_members_def types_of_def createPackageXmlTemplate_def)
  have p: "Package createPackageXmlTemplate \<noteq> None"
    by (simp add: createPackageXmlTemplate_def)
  from merge_members_unique [OF u, of "[sourceA, sourceB]" "[]"] p u show ?thesis by blast
qed

text \<open>
  C2 as stated, for every accumulator, fails: \<^verbatim>\<open>mergeObjects\<close> leaves a type that
  no file names as it is, so members listed twice in the accumulator stay listed
  twice.
\<close>

theorem merge_members_unique_counterexample:
  "snd (mergeObjects [sourceA] (Some dupAccumulator) []) =
     Inr (Some \<lparr>Package = Some \<lparr>version = JArray [JString ''48.0''],
       types = Some [\<lparr>name = ''CustomField'', members = [''Account.X'', ''Account.X'']\<rparr>,
                     \<lparr>name = ''ApexClass'', members = [''Foo'', ''Bar'']\<rparr>]\<rparr>\<rparr>)
   \<and> \<not> unique_members \<lparr>Package = Some \<lparr>version = JArray [JString ''48.0''],
       types = Some [\<lparr>name = ''CustomField'', members = [''Account.X'', ''Account.X'']\<rparr>,
                     \<lparr>name = ''ApexClass'', members = [''Foo'', ''Bar'']\<rparr>]\<rparr>\<rparr>"
  by (simp add: mergeObjects_def sourceA_def dupAccumulator_def file_types_def
      appendTypesToPackage_def getUnique_def unique_members_def types_of_def)

text \<open>
  C3. From an accumulator with pairwise distinct type names,
  \<^verbatim>\<open>appendTypesToPackage\<close> returns an accumulator with pairwise distinct type names: the
  types named \<open>n\<close> are updated in place, and a new type is appended exactly when no
  type has that name. The same invariant holds after \<^verbatim>\<open>mergeObjects\<close> and after the
  normalization; with the key \<^verbatim>\<open>Package\<close> present, both calls return.
\<close>

theorem merge_names_unique:
  assumes "unique_names po"
  shows "(\<forall>po'. appendTypesToPackage n ms po = Inr po' \<longrightarrow>
            unique_names po' \<and>
            types_of po' =
              map (\<lambda>t. if name t = n then t\<lparr>members := getUnique (members t @ ms)\<rparr> else t) (types_of po)
              @ (if n \<in> set (map name (types_of po)) then [] else [\<lparr>name = n, members = getUnique ms\<rparr>]))
       \<and> (\<forall>po'. snd (mergeObjects files (Some po) out) = Inr (Some po') \<longrightarrow> unique_names po')
       \<and> (\<forall>po'. normalize cfg po = Inr po' \<longrightarrow> unique_names po')
       \<and> (Package po \<noteq> None \<longrightarrow>
            (\<exists>po'. appendTypesToPackage n ms po = Inr po') \<and>
            (\<exists>po'. snd (mergeObjects files (Some po) out) = Inr (Some po')))"
proof (intro conjI allI impI)
  fix po' assume a: "appendTypesToPackage n ms po = Inr po'"
  then have p: "Package po \<noteq> None" by (auto simp: appendTypesToPackage_eq split: option.splits)
  from appendTypesToPackage_Some [OF p, of n ms] a
  have t: "types_of po' = append_types n ms (types_of po)" by simp
  with assms show "unique_names po'"
    by (simp add: unique_names_def distinct_names_append_types)
  from t show "types_of po' =
      map (\<lambda>t. if name t = n then t\<lparr>members := getUnique (members t @ ms)\<rparr> else t) (types_of po)
      @ (if n \<in> set (map name (types_of po)) then [] else [\<lparr>name = n, members = getUnique ms\<rparr>])"
    by (simp add: append_types_def Let_def)
next
  fix po' assume m: "snd (mergeObjects files (Some po) out) = Inr (Some po')"
  show "unique_names po'"
  proof (cases "Package po")
    case None
    have "po' = po"
      using m forEach_file_no_Package [OF None, of files 0 out "fst (mergeObjects files (Some po) out)" po']
      by (simp add: mergeObjects_def) (metis prod.collapse)
    with assms show ?thesis by simp
  next
    case (Some pkg)
    then have "Package po \<noteq> None" by simp
    from forEach_file_Some [OF this, of files 0 out] m
    have "types_of po' = merge_types (incoming files) (types_of po)"
      by (auto simp: mergeObjects_def)
    with assms show ?thesis
      by (simp add: unique_names_def distinct_names_merge_types)
  qed
next
  fix po' assume "normalize cfg po = Inr po'"
  with assms have "types_of po' = normal_types (types_of po)"
    by (intro normalize_Inr) (simp_all add: unique_names_def)
  with assms show "unique_names po'"
    by (simp add: unique_names_def distinct_names_normal_types)
next
  assume p: "Package po \<noteq> None"
  from appendTypesToPackage_Some [OF p, of n ms]
  show "\<exists>po'. appendTypesToPackage n ms po = Inr po'" by blast
  from forEach_file_Some [OF p, of files 0 out]
  show "\<exists>po'. snd (mergeObjects files (Some po) out) = Inr (Some po')"
    by (auto simp: mergeObjects_def)
qed

text \<open>
  C3, at an accumulator with two types and sources that name one of them again.
\<close>

theorem merge_names_unique_witness:
  "unique_names twoTypes
   \<and> (\<exists>po'. appendTypesToPackage ''ApexClass'' [''Foo'', ''Bar''] twoTypes = Inr po' \<and> unique_names po')
   \<and> (\<exists>po'. snd (mergeObjects [sourceA, sourceB] (Some twoTypes) []) = Inr (Some po') \<and> unique_names po')"
proof -
  have u: "unique_names twoTypes"
    by (simp add: unique_names_def types_of_def twoTypes_def)
  have p: "Package twoTypes \<noteq> None"
    by (simp add: twoTypes_def)
  from merge_names_unique [OF u, of "''ApexClass''" "[''Foo'', ''Bar'']" "[sourceA, sourceB]" "[]" config] p u
  show ?thesis by blast
qed

text \<open>
  C5, amended. For a manifest with pairwise distinct type names, normalizing returns a
  manifest that normalizing leaves as it is; and every manifest with the same types
  and, per type, the same members, in any order, normalizes to the same result.
  (With pairwise distinct names the comparison function of \<^verbatim>\<open>writeFiles\<close>, which never
  returns 0, is a consistent order, so the result does not depend on the sorting
  algorithm.)
\<close>

theorem normalize_idempotent_order_independent:
  assumes "distinct (map name ts)"
  shows "(\<exists>r. normalize cfg \<lparr>Package = Some \<lparr>version = v, types = Some ts\<rparr>\<rparr> = Inr r \<and> normalize cfg r = Inr r)
       \<and> (\<forall>ts'. mset (map (\<lambda>t. (name t, mset (members t))) ts') = mset (map (\<lambda>t. (name t, mset (members t))) ts)
             \<longrightarrow> normalize cfg \<lparr>Package = Some \<lparr>version = v, types = Some ts'\<rparr>\<rparr>
                = normalize cfg \<lparr>Package = Some \<lparr>version = v, types = Some ts\<rparr>\<rparr>)"
proof (intro conjI allI impI)
  from assms have "distinct (map name (normal_types ts))"
    by (simp only: distinct_names_normal_types)
  from normalize_eq [OF this, of cfg "forced_version cfg v"] normalize_eq [OF assms, of cfg v]
  show "\<exists>r. normalize cfg \<lparr>Package = Some \<lparr>version = v, types = Some ts\<rparr>\<rparr> = Inr r \<and> normalize cfg r = Inr r"
    by (simp add: normal_types_idem forced_version_idem)
next
  fix ts' :: "ptype list"
  assume m: "mset (map (\<lambda>t. (name t, mset (members t))) ts') = mset (map (\<lambda>t. (name t, mset (members t))) ts)"
  from content_of_mset [OF m] assms have d: "distinct (map name ts')" by simp
  from content_of_mset [OF m] assms have "normal_types ts' = normal_types ts"
    by (intro normal_types_unique) simp_all
  then show "normalize cfg \<lparr>Package = Some \<lparr>version = v, types = Some ts'\<rparr>\<rparr>
      = normalize cfg \<lparr>Package = Some \<lparr>version = v, types = Some ts\<rparr>\<rparr>"
    by (simp add: normalize_eq [OF d] normalize_eq [OF assms])
qed

text \<open>
  C5, at two types given in both orders with their members in both orders.
\<close>

theorem normalize_idempotent_order_independent_witness:
  "distinct (map name [\<lparr>name = ''ApexPage'', members = [''Home'', ''About'']\<rparr>, \<lparr>name = ''ApexClass'', members = [''Foo'', ''Bar'']\<rparr>])
   \<and> (\<exists>r. normalize config \<lparr>Package = Some \<lparr>version = JNumber 48,
              types = Some [\<lparr>name = ''ApexPage'', members = [''Home'', ''About'']\<rparr>, \<lparr>name = ''ApexClass'', members = [''Foo'', ''Bar'']\<rparr>]\<rparr>\<rparr> = Inr r
          \<and> normalize config r = Inr r)
   \<and> normalize config \<lparr>Package = Some \<lparr>version = JNumber 48,
              types = Some [\<lparr>name = ''ApexClass'', members = [''Bar'', ''Foo'']\<rparr>, \<lparr>name = ''ApexPage'', members = [''About'', ''Home'']\<rparr>]\<rparr>\<rparr>
     = normalize config \<lparr>Package = Some \<lparr>version = JNumber 48,
              types = Some [\<lparr>name = ''ApexPage'', members = [''Home'', ''About'']\<rparr>, \<lparr>name = ''ApexClass'', members = [''Foo'', ''Bar'']\<rparr>]\<rparr>\<rparr>"
proof -
  let ?ts = "[\<lparr>name = ''ApexPage'', members = [''Home'', ''About'']\<rparr>, \<lparr>name = ''ApexClass'', members = [''Foo'', ''Bar'']\<rparr>]"
  let ?ts' = "[\<lparr>name = ''ApexClass'', members = [''Bar'', ''Foo'']\<rparr>, \<lparr>name = ''ApexPage'', members = [''About'', ''Home'']\<rparr>]"
  have d: "distinct (map name ?ts)" by simp
  have m: "mset (map (\<lambda>t. (name t, mset (members t))) ?ts') = mset (map (\<lambda>t. (name t, mset (members t))) ?ts)"
    by (simp add: add_mset_commute)
  note th = normalize_idempotent_order_independent [OF d, of config "JNumber 48"]
  note i = th [THEN conjunct1]
  note o = th [THEN conjunct2, THEN spec, THEN mp, OF m]
  show ?thesis by (rule conjI [OF d conjI [OF i o]])
qed

text \<open>
  C5 as stated, for every manifest, fails where two types share a name: the
  comparison function of \<^verbatim>\<open>writeFiles\<close> answers -1 for both orders of such a pair, so
  the sort takes the two for a descending run and reverses them. Normalizing the
  result again reverses them back, so normalizing twice is not normalizing once, and
  the same two types listed in the other order come out in the other order.
\<close>

theorem normalize_idempotent_order_independent_counterexample:
  "compare_names (repeatedTypes ! 0) (repeatedTypes ! 1) = - 1
   \<and> compare_names (repeatedTypes ! 1) (repeatedTypes ! 0) = - 1
   \<and> normalize config \<lparr>Package = Some \<lparr>version = JNumber 50, types = Some repeatedTypes\<rparr>\<rparr>
       = Inr \<lparr>Package = Some \<lparr>version = JNumber 50, types = Some (rev repeatedTypes)\<rparr>\<rparr>
   \<and> normalize config \<lparr>Package = Some \<lparr>version = JNumber 50, types = Some (rev repeatedTypes)\<rparr>\<rparr>
       = Inr \<lparr>Package = Some \<lparr>version = JNumber 50, types = Some repeatedTypes\<rparr>\<rparr>
   \<and> rev repeatedTypes \<noteq> repeatedTypes
   \<and> mset (map (\<lambda>t. (name t, mset (members t))) (rev repeatedTypes))
       = mset (map (\<lambda>t. (name t, mset (members t))) repeatedTypes)"
  by (simp add: repeatedTypes_def normalize_def sortValues_def writeFiles_def Array_sort_def
      compare_names_def default_compare_def jsonToCSV_def config_def)

text \<open>
  C6. A file that fails the test of \<^verbatim>\<open>mergeObjects\<close> (it is \<^verbatim>\<open>undefined\<close>, or lacks
  \<^verbatim>\<open>Package\<close>, or lacks \<^verbatim>\<open>Package.types\<close>) leaves the accumulator as it is and only
  adds a line to the log; the result of merging a list that contains it is the result
  of merging the list without it. From an accumulator with the key \<^verbatim>\<open>Package\<close> the
  merge returns a package in which every type of every other file, and every type of
  the accumulator, is present under its name with all its members, in which every
  member comes from a type of that name in the accumulator or in one of the other
  files; and the log holds the report with the index of the file.
\<close>

theorem malformed_file_skipped:
  assumes "file_types bad = None"
  shows "mergeObjects [bad] (Some po) out
           = (log (''Malfomred or empty packaged file: '' @ string_of_nat 0) out, Inr (Some po))
       \<and> snd (mergeObjects (xs @ bad # ys) (Some po) out) = snd (mergeObjects (xs @ ys) (Some po) out)
       \<and> (Package po \<noteq> None \<longrightarrow>
            (\<exists>r. snd (mergeObjects (xs @ bad # ys) (Some po) out) = Inr (Some r)
               \<and> (\<forall>f\<in>set (xs @ ys). \<forall>ts. file_types f = Some ts \<longrightarrow>
                     (\<forall>t\<in>set ts. \<exists>g\<in>set (types_of r). name g = name t \<and> set (members t) \<subseteq> set (members g)))
               \<and> (\<forall>t\<in>set (types_of po). \<exists>g\<in>set (types_of r). name g = name t \<and> set (members t) \<subseteq> set (members g))
               \<and> (\<forall>g\<in>set (types_of r). \<forall>m\<in>set (members g).
                     (\<exists>t\<in>set (types_of po). name t = name g \<and> m \<in> set (members t))
                   \<or> (\<exists>f\<in>set (xs @ ys). \<exists>ts. file_types f = Some ts \<and>
                         (\<exists>t\<in>set ts. name t = name g \<and> m \<in> set (members t)))))
            \<and> (''Malfomred or empty packaged file: '' @ string_of_nat (length xs))
                \<in> set (fst (mergeObjects (xs @ bad # ys) (Some po) out)))"
proof (intro conjI impI)
  show "mergeObjects [bad] (Some po) out
      = (log (''Malfomred or empty packaged file: '' @ string_of_nat 0) out, Inr (Some po))"
    using assms by (simp add: mergeObjects_def)
next
  obtain o1 r1 where a: "forEach_file xs 0 out (Some po) = (o1, r1)"
    by (cases "forEach_file xs 0 out (Some po)")
  show "snd (mergeObjects (xs @ bad # ys) (Some po) out) = snd (mergeObjects (xs @ ys) (Some po) out)"
  proof (cases r1)
    case (Inl e)
    with a show ?thesis by (simp add: mergeObjects_def forEach_file_append_Inl)
  next
    case (Inr acc')
    with a have "acc' \<noteq> None" by (auto dest: forEach_file_keeps_Some)
    then obtain p where p: "acc' = Some p" by auto
    have "snd (forEach_file (bad # ys) (length xs) o1 (Some p)) = snd (forEach_file ys (length xs) o1 (Some p))"
      using assms forEach_file_snd_log by simp
    with a Inr p show ?thesis by (simp add: mergeObjects_def forEach_file_append_Inr)
  qed
next
  assume pk: "Package po \<noteq> None"
  let ?gs = "incoming (xs @ ys)"
  from forEach_file_Some [OF pk, of "xs @ bad # ys" 0 out] incoming_skip [OF assms, of xs ys]
  obtain r where r: "snd (mergeObjects (xs @ bad # ys) (Some po) out) = Inr (Some r)"
    and t: "types_of r = merge_types ?gs (types_of po)"
    by (auto simp: mergeObjects_def)
  have c1: "\<forall>f\<in>set (xs @ ys). \<forall>ts. file_types f = Some ts \<longrightarrow>
      (\<forall>t\<in>set ts. \<exists>g\<in>set (types_of r). name g = name t \<and> set (members t) \<subseteq> set (members g))"
  proof (intro ballI allI impI)
    fix f ts t
    assume "f \<in> set (xs @ ys)" "file_types f = Some ts" "t \<in> set ts"
    then have "t \<in> set ?gs" unfolding in_incoming_iff by blast
    then show "\<exists>g\<in>set (types_of r). name g = name t \<and> set (members t) \<subseteq> set (members g)"
      unfolding t by (rule covered_merge_types)
  qed
  have c2: "\<forall>t\<in>set (types_of po). \<exists>g\<in>set (types_of r). name g = name t \<and> set (members t) \<subseteq> set (members g)"
  proof
    fix t assume "t \<in> set (types_of po)"
    then have "\<exists>g\<in>set (types_of po). name g = name t \<and> set (members t) \<subseteq> set (members g)" by blast
    then show "\<exists>g\<in>set (types_of r). name g = name t \<and> set (members t) \<subseteq> set (members g)"
      unfolding t by (rule covered_merge_types_mono)
  qed
  have c3: "\<forall>g\<in>set (types_of r). \<forall>m\<in>set (members g).
      (\<exists>t\<in>set (types_of po). name t = name g \<and> m \<in> set (members t))
      \<or> (\<exists>f\<in>set (xs @ ys). \<exists>ts. file_types f = Some ts \<and> (\<exists>t\<in>set ts. name t = name g \<and> m \<in> set (members t)))"
  proof (intro ballI)
    fix g m assume "g \<in> set (types_of r)" "m \<in> set (members g)"
    then have "(\<exists>t\<in>set (types_of po). name t = name g \<and> m \<in> set (members t))
        \<or> (\<exists>t\<in>set ?gs. name t = name g \<and> m \<in> set (members t))"
      unfolding t by (rule member_merge_types_origin)
    then show "(\<exists>t\<in>set (types_of po). name t = name g \<and> m \<in> set (members t))
        \<or> (\<exists>f\<in>set (xs @ ys). \<exists>ts. file_types f = Some ts \<and> (\<exists>t\<in>set ts. name t = name g \<and> m \<in> set (members t)))"
    proof
      assume "\<exists>t\<in>set (types_of po). name t = name g \<and> m \<in> set (members t)"
      then show ?thesis by (rule disjI1)
    next
      assume "\<exists>t\<in>set ?gs. name t = name g \<and> m \<in> set (members t)"
      then obtain t where i: "t \<in> set ?gs" and n: "name t = name g" "m \<in> set (members t)" by blast
      from i obtain f ts where "f \<in> set (xs @ ys)" "file_types f = Some ts" "t \<in> set ts"
        unfolding in_incoming_iff by blast
      with n show ?thesis by blast
    qed
  qed
  from r c1 c2 c3
  show "\<exists>r. snd (mergeObjects (xs @ bad # ys) (Some po) out) = Inr (Some r)
      \<and> (\<forall>f\<in>set (xs @ ys). \<forall>ts. file_types f = Some ts \<longrightarrow>
            (\<forall>t\<in>set ts. \<exists>g\<in>set (types_of r). name g = name t \<and> set (members t) \<subseteq> set (members g)))
      \<and> (\<forall>t\<in>set (types_of po). \<exists>g\<in>set (types_of r). name g = name t \<and> set (members t) \<subseteq> set (members g))
      \<and> (\<forall>g\<in>set (types_of r). \<forall>m\<in>set (members g).
            (\<exists>t\<in>set (types_of po). name t = name g \<and> m \<in> set (members t))
          \<or> (\<exists>f\<in>set (xs @ ys). \<exists>ts. file_types f = Some ts \<and>
                (\<exists>t\<in>set ts. name t = name g \<and> m \<in> set (members t))))"
    by (intro exI [of _ r] conjI)
  from forEach_file_Some [OF pk, of xs 0 out]
  obtain o1 p1 where a: "forEach_file xs 0 out (Some po) = (o1, Inr (Some p1))" by blast
  let ?msg = "''Malfomred or empty packaged file: '' @ string_of_nat (length xs)"
  have "fst (mergeObjects (xs @ bad # ys) (Some po) out) = fst (forEach_file ys (Suc (length xs)) (log ?msg o1) (Some p1))"
    using a assms by (simp add: mergeObjects_def forEach_file_append_Inr)
  moreover have "?msg \<in> set (log ?msg o1)" by (simp add: log_def)
  ultimately show "?msg \<in> set (fst (mergeObjects (xs @ bad # ys) (Some po) out))"
    using forEach_file_log_mono [of "log ?msg o1" ys "Suc (length xs)" "Some p1"] by auto
qed

text \<open>
  C6, at the list of two good sources with a source that lacks \<^verbatim>\<open>Package.types\<close>
  between them, merged into the empty template: the type ApexPage with its member
  Home, which only the source after the bad one lists, and the type ApexClass of the
  source before it are in the result.
\<close>

theorem malformed_file_skipped_witness:
  "file_types sourceBad = None
   \<and> snd (mergeObjects ([sourceA] @ sourceBad # [sourceB]) (Some createPackageXmlTemplate) [])
       = snd (mergeObjects ([sourceA] @ [sourceB]) (Some createPackageXmlTemplate) [])
   \<and> (\<exists>r. snd (mergeObjects ([sourceA] @ sourceBad # [sourceB]) (Some createPackageXmlTemplate) []) = Inr (Some r)
        \<and> (\<exists>g\<in>set (types_of r). name g = ''ApexPage'' \<and> set [''Home''] \<subseteq> set (members g))
        \<and> (\<exists>g\<in>set (types_of r). name g = ''ApexClass'' \<and> set [''Foo'', ''Bar''] \<subseteq> set (members g)))
   \<and> (''Malfomred or empty packaged file: '' @ string_of_nat (length [sourceA]))
        \<in> set (fst (mergeObjects ([sourceA] @ sourceBad # [sourceB]) (Some createPackageXmlTemplate) []))"
proof -
  have b: "file_types sourceBad = None"
    by (simp add: file_types_def sourceBad_def)
  have p: "Package createPackageXmlTemplate \<noteq> None"
    by (simp add: createPackageXmlTemplate_def)
  have fa: "file_types sourceA = Some [\<lparr>name = ''ApexClass'', members = [''Foo'', ''Bar'']\<rparr>]"
    by (simp add: file_types_def sourceA_def)
  have fb: "file_types sourceB = Some [\<lparr>name = ''ApexClass'', members = [''Bar'', ''Baz'']\<rparr>,
      \<lparr>name = ''ApexPage'', members = [''Home'']\<rparr>]"
    by (simp add: file_types_def sourceB_def)
  note th = malformed_file_skipped [OF b, of createPackageXmlTemplate "[]" "[sourceA]" "[sourceB]"]
  note e = th [THEN conjunct2, THEN conjunct1]
  note rest = th [THEN conjunct2, THEN conjunct2, THEN mp, OF p]
  note lg = rest [THEN conjunct2]
  from rest [THEN conjunct1]
  obtain r where r: "snd (mergeObjects ([sourceA] @ sourceBad # [sourceB]) (Some createPackageXmlTemplate) []) = Inr (Some r)"
    and c: "\<forall>f\<in>set ([sourceA] @ [sourceB]). \<forall>ts. file_types f = Some ts \<longrightarrow>
        (\<forall>t\<in>set ts. \<exists>g\<in>set (types_of r). name g = name t \<and> set (members t) \<subseteq> set (members g))"
    by (elim exE conjE)
  from c [rule_format, of sourceB _ "\<lparr>name = ''ApexPage'', members = [''Home'']\<rparr>", OF _ fb]
  have g1: "\<exists>g\<in>set (types_of r). name g = ''ApexPage'' \<and> set [''Home''] \<subseteq> set (members g)" by simp
  from c [rule_format, of sourceA _ "\<lparr>name = ''ApexClass'', members = [''Foo'', ''Bar'']\<rparr>", OF _ fa]
  have g2: "\<exists>g\<in>set (types_of r). name g = ''ApexClass'' \<and> set [''Foo'', ''Bar''] \<subseteq> set (members g)" by simp
  from r g1 g2
  have x: "\<exists>r. snd (mergeObjects ([sourceA] @ sourceBad # [sourceB]) (Some createPackageXmlTemplate) []) = Inr (Some r)
        \<and> (\<exists>g\<in>set (types_of r). name g = ''ApexPage'' \<and> set [''Home''] \<subseteq> set (members g))
        \<and> (\<exists>g\<in>set (types_of r). name g = ''ApexClass'' \<and> set [''Foo'', ''Bar''] \<subseteq> set (members g))"
    by (intro exI [of _ r] conjI)
  show ?thesis by (rule conjI [OF b conjI [OF e conjI [OF x lg]]])
qed

text \<open>
  C4, amended. The CSV text is the header line followed by exactly as many rows as the
  largest member count; row \<open>i\<close> has one field per type, which is the \<open>i\<close>-th member
  when the type has one and it is not the empty string, and the empty quoted cell
  otherwise.
\<close>

theorem csv_table_shape:
  "jsonToCSV \<lparr>Package = Some \<lparr>version = v, types = Some ts\<rparr>\<rparr> =
     Inr (concat (map (\<lambda>t. name t @ '','') ts) @ crlf @
          concat (map (\<lambda>i. concat (map (\<lambda>t. if i < length (members t) \<and> members t ! i \<noteq> []
                                              then members t ! i @ '','' else empty_cell) ts) @ crlf)
                    [0..<Max (insert 0 (set (map (\<lambda>t. length (members t)) ts)))]))"
proof -
  have "csv_row (map members ts) = (\<lambda>i. concat (map (\<lambda>t. if i < length (members t) \<and> members t ! i \<noteq> []
                                              then members t ! i @ '','' else empty_cell) ts) @ crlf)"
    by (rule ext) (simp add: csv_row_def csv_cell_eq comp_def)
  then show ?thesis
    by (simp add: jsonToCSV_eq csv_text_def csv_header_def max_member_count_Max)
qed

text \<open>
  C4 as stated fails where a member is the empty string: the type has a first member,
  and the cell holds the empty quoted cell, not that member.
\<close>

theorem csv_table_shape_counterexample:
  "jsonToCSV emptyMemberPackage =
     Inr (''ApexClass,ApexPage,'' @ crlf @ empty_cell @ ''Home,'' @ crlf @ ''Foo,'' @ empty_cell @ crlf)
   \<and> js_index (members (types_of emptyMemberPackage ! 0)) 0 = Some []
   \<and> jsonToCSV emptyMemberPackage \<noteq> Inr (claimed_csv_text (types_of emptyMemberPackage))"
  by (simp add: emptyMemberPackage_def jsonToCSV_def rows_loop.simps js_index_def types_of_def
      claimed_csv_text_def max_member_count_def crlf_def empty_cell_def upt_rec)

text \<open>
  C10. In the row of index \<open>i\<close>, the cell of a type that has an \<open>i\<close>-th member holds
  the empty quoted cell when that member is the empty string, and the member followed
  by a comma otherwise: a member appears in the table only when it is truthy.
\<close>

theorem csv_falsy_member_placeholder:
  assumes "i < length (members t)"
  shows "jsonToCSV \<lparr>Package = Some \<lparr>version = v, types = Some (pre @ t # post)\<rparr>\<rparr>
           = Inr (csv_header (pre @ t # post)
                  @ concat (map (csv_row (map members (pre @ t # post))) [0..<max_member_count (pre @ t # post)]))
       \<and> i < max_member_count (pre @ t # post)
       \<and> csv_row (map members (pre @ t # post)) i
           = concat (map (\<lambda>col. csv_cell col i) (map members pre))
             @ (if members t ! i = [] then empty_cell else members t ! i @ '','')
             @ concat (map (\<lambda>col. csv_cell col i) (map members post)) @ crlf"
proof (intro conjI)
  show "jsonToCSV \<lparr>Package = Some \<lparr>version = v, types = Some (pre @ t # post)\<rparr>\<rparr>
      = Inr (csv_header (pre @ t # post)
             @ concat (map (csv_row (map members (pre @ t # post))) [0..<max_member_count (pre @ t # post)]))"
    by (simp only: jsonToCSV_eq csv_text_def)
  have "length (members t) \<le> max_member_count (pre @ t # post)"
    by (rule length_le_max_member_count) simp
  with assms show "i < max_member_count (pre @ t # post)" by simp
  from assms have "csv_cell (members t) i = (if members t ! i = [] then empty_cell else members t ! i @ '','')"
    by (simp add: csv_cell_eq)
  then show "csv_row (map members (pre @ t # post)) i
      = concat (map (\<lambda>col. csv_cell col i) (map members pre))
        @ (if members t ! i = [] then empty_cell else members t ! i @ '','')
        @ concat (map (\<lambda>col. csv_cell col i) (map members post)) @ crlf"
    by (simp add: csv_row_def)
qed

text \<open>
  C10, at the package whose type ApexClass has the empty string as its first member:
  the first row starts with the empty quoted cell.
\<close>

theorem csv_falsy_member_placeholder_witness:
  "0 < length (members \<lparr>name = ''ApexClass'', members = [[], ''Foo'']\<rparr>)
   \<and> csv_row (map members ([] @ \<lparr>name = ''ApexClass'', members = [[], ''Foo'']\<rparr> # [\<lparr>name = ''ApexPage'', members = [''Home'']\<rparr>])) 0
       = empty_cell @ ''Home,'' @ crlf"
proof -
  have h: "0 < length (members \<lparr>name = ''ApexClass'', members = [[], ''Foo'']\<rparr>)" by simp
  from csv_falsy_member_placeholder [OF h, of "JNumber 50" "[]" "[\<lparr>name = ''ApexPage'', members = [''Home'']\<rparr>]"]
  have "csv_row (map members ([] @ \<lparr>name = ''ApexClass'', members = [[], ''Foo'']\<rparr> # [\<lparr>name = ''ApexPage'', members = [''Home'']\<rparr>])) 0
       = empty_cell @ ''Home,'' @ crlf"
    by (simp add: csv_cell_eq)
  with h show ?thesis by (rule conjI)
qed

text \<open>
  C8. \<^verbatim>\<open>finish\<close>, which ends a successful run, and the handler of an uncaught error
  both pass 1 to \<^verbatim>\<open>process.exit\<close>: the two exit codes are equal.
\<close>

theorem finish_exit_code:
  "snd (finish out) = 1 \<and> snd (uncaughtException err out) = 1
   \<and> snd (finish out) = snd (uncaughtException err out)"
  by (simp add: finish_def uncaughtException_def)

text \<open>
  C9, amended. \<^verbatim>\<open>loadConfig\<close> raises when the file cannot be read and when its text is
  not JSON, and returns \<^verbatim>\<open>undefined\<close> in every other case, whatever the file holds;
  the first step of \<^verbatim>\<open>init\<close> raises in the same two cases and otherwise yields the
  built-in configuration, so whenever it yields a configuration, it is the built-in
  one.
\<close>

theorem loadConfig_discards_file:
  "loadConfig JSON_parse fs fileName =
     (case fs fileName of
        None \<Rightarrow> Inl IOError
      | Some text \<Rightarrow> (case JSON_parse text of None \<Rightarrow> Inl SyntaxError | Some v \<Rightarrow> Inr None))
   \<and> init_config JSON_parse fs =
     (case fs configFileName of
        None \<Rightarrow> Inl IOError
      | Some text \<Rightarrow> (case JSON_parse text of None \<Rightarrow> Inl SyntaxError | Some v \<Rightarrow> Inr config))
   \<and> (\<forall>r. loadConfig JSON_parse fs fileName = Inr r \<longrightarrow> r = None)
   \<and> (\<forall>cfg. init_config JSON_parse fs = Inr cfg \<longrightarrow> cfg = config)"
  by (auto simp: loadConfig_def init_config_def readJSONFromFile_def spread_def
      split: option.splits sum.splits)

text \<open>
  C9, at a configuration file that asks for version 55 (it is read and parsed, and
  the configuration stays the built-in one), at a file system without the file, and
  at a file whose text is not JSON.
\<close>

theorem loadConfig_discards_file_witness:
  "loadConfig exampleParse [configFileName \<mapsto> configFileText] configFileName = Inr None
   \<and> init_config exampleParse [configFileName \<mapsto> configFileText] = Inr config
   \<and> loadConfig exampleParse Map.empty configFileName = Inl IOError
   \<and> init_config exampleParse Map.empty = Inl IOError
   \<and> loadConfig exampleParse [configFileName \<mapsto> ''not json''] configFileName = Inl SyntaxError
   \<and> init_config exampleParse [configFileName \<mapsto> ''not json''] = Inl SyntaxError"
proof -
  note t1 = loadConfig_discards_file [of exampleParse "[configFileName \<mapsto> configFileText]" configFileName]
  note t2 = loadConfig_discards_file [of exampleParse Map.empty configFileName]
  note t3 = loadConfig_discards_file [of exampleParse "[configFileName \<mapsto> ''not json'']" configFileName]
  from t1 have a: "loadConfig exampleParse [configFileName \<mapsto> configFileText] configFileName = Inr None
      \<and> init_config exampleParse [configFileName \<mapsto> configFileText] = Inr config"
    by (simp add: exampleParse_def)
  from t2 have b: "loadConfig exampleParse Map.empty configFileName = Inl IOError
      \<and> init_config exampleParse Map.empty = Inl IOError"
    by simp
  from t3 have c: "loadConfig exampleParse [configFileName \<mapsto> ''not json''] configFileName = Inl SyntaxError
      \<and> init_config exampleParse [configFileName \<mapsto> ''not json''] = Inl SyntaxError"
    by (simp add: exampleParse_def configFileText_def)
  from a b c show ?thesis by simp
qed

text \<open>
  C9 as stated, for every file name, fails: for a file that does not exist
  \<^verbatim>\<open>readFileSync\<close> raises, and \<^verbatim>\<open>loadConfig\<close> returns nothing.
\<close>

theorem loadConfig_discards_file_counterexample:
  "loadConfig exampleParse Map.empty configFileName = Inl IOError
   \<and> loadConfig exampleParse Map.empty configFileName \<noteq> Inr None"
  by (simp add: loadConfig_def readJSONFromFile_def)

end
